theory Spec2Isabelle
  imports Main "HOL-Library.Word"
begin

section \<open>The beacon committees service of chaind\<close>

text \<open>
  A shallow embedding of \<^verbatim>\<open>services/beaconcommittees/standard/service.go\<close>:
  the constructor \<^verbatim>\<open>New\<close>, the startup routine \<^verbatim>\<open>updateAfterRestart\<close> and the
  catch-up loop \<^verbatim>\<open>catchup\<close>. The chain database, the chain client, the chain time
  service and the weighted semaphore are collaborators of the service: their state is
  part of the state the functions pass along, and the results of their calls (an error
  or none, the current epoch) are read from an environment, one answer per call.
\<close>

subsection \<open>Data\<close>

text \<open>\<^verbatim>\<open>phase0.Epoch\<close> is a \<^verbatim>\<open>uint64\<close>; the configured start epoch is an \<^verbatim>\<open>int64\<close>,
  the same 64 bits read in two's complement (\<open>sint\<close>, \<open>\<le>s\<close>).\<close>

type_synonym epoch = "64 word"
type_synonym int64 = "64 word"

record metadata =
  LatestEpoch :: epoch

datatype error = Err string

datatype level = InfoLevel | WarnLevel | ErrorLevel | FatalLevel

text \<open>The calls the service makes on its collaborators, in the order it makes them.\<close>

datatype event =
    EvBeginTx
  | EvUpdate epoch
  | EvSetMetadata epoch
  | EvCommitTx
  | EvCancel
  | EvTryAcquire bool
  | EvRelease
  | EvEvents
  | EvLog level string

text \<open>A transaction holds its writes until it is committed.\<close>

record tx =
  tx_committees :: "epoch list"
  tx_md :: "metadata option"

record chaindb =
  md_stored :: metadata
  committees :: "epoch list"
  open_tx :: "tx option"

record Weighted =
  sem_size :: nat
  sem_cur :: nat

record Service =
  chainDB :: chaindb
  activitySem :: Weighted
  headHandlers :: nat
  trace :: "event list"

datatype step = StBeginTx | StUpdate | StSetMetadata | StCommitTx

text \<open>
  The environment of one process run. \<open>CurrentEpoch env n\<close> is what
  \<^verbatim>\<open>s.chainTime.CurrentEpoch()\<close> returns when the loop condition is evaluated for the
  \<open>n\<close>-th time (from 0), and \<open>step_fails env n st\<close> says whether the call \<open>st\<close> of the
  \<open>n\<close>-th iteration returns an error.
\<close>

record env =
  getMetadata_fails :: bool
  CurrentEpoch :: "nat \<Rightarrow> epoch"
  step_fails :: "nat \<Rightarrow> step \<Rightarrow> bool"
  isEventsProvider :: bool
  Events_fails :: bool


datatype exit = Returned | Exited | Panicked

subsection \<open>The weighted semaphore\<close>

text \<open>Modelled from the spec: the semaphore of \<^verbatim>\<open>golang.org/x/sync/semaphore\<close> behind the
  Single-Flight Guard is not part of the source file. \<open>TryAcquire\<close> admits without
  blocking when the weight still fits, \<open>Release\<close> gives the weight back and panics when
  more is released than is held (\<open>None\<close>). The weight held is never negative, so it is a
  natural number. No caller blocks in \<^verbatim>\<open>Acquire\<close>, so there is no queue of waiters.\<close>

definition NewWeighted :: "nat \<Rightarrow> Weighted" where
  "NewWeighted n = \<lparr>sem_size = n, sem_cur = 0\<rparr>"

definition TryAcquire :: "nat \<Rightarrow> Weighted \<Rightarrow> bool \<times> Weighted" where
  "TryAcquire n w =
     (if sem_cur w + n \<le> sem_size w then (True, w\<lparr>sem_cur := sem_cur w + n\<rparr>)
      else (False, w))"

definition Release :: "nat \<Rightarrow> Weighted \<Rightarrow> Weighted option" where
  "Release n w =
     (if sem_cur w < n then None else Some (w\<lparr>sem_cur := sem_cur w - n\<rparr>))"

subsection \<open>The chain database\<close>

definition logmsg :: "level \<Rightarrow> string \<Rightarrow> Service \<Rightarrow> Service" where
  "logmsg l m s = s\<lparr>trace := trace s @ [EvLog l m]\<rparr>"

definition called :: "event \<Rightarrow> Service \<Rightarrow> Service" where
  "called ev s = s\<lparr>trace := trace s @ [ev]\<rparr>"

text \<open>Modelled from the spec: the persistence engine's \<^verbatim>\<open>BeginTx\<close> is not part of the
  source file. It opens a transaction with no writes, or fails and opens none.\<close>

definition BeginTx :: "bool \<Rightarrow> Service \<Rightarrow> error option \<times> Service" where
  "BeginTx fails s =
     (let s' = called EvBeginTx s in
      if fails then (Some (Err ''begin''), s')
      else (None, s'\<lparr>chainDB := (chainDB s')\<lparr>open_tx := Some \<lparr>tx_committees = [], tx_md = None\<rparr>\<rparr>\<rparr>))"

text \<open>Modelled from the spec: \<^verbatim>\<open>updateBeaconCommitteesForEpoch\<close> (the Epoch Fetch/Write
  Unit) is not part of the source file. It fetches the committees of one epoch and writes
  them in the open transaction; a failure leaves nothing that outlives the transaction.\<close>

definition updateBeaconCommitteesForEpoch :: "bool \<Rightarrow> epoch \<Rightarrow> Service \<Rightarrow> error option \<times> Service" where
  "updateBeaconCommitteesForEpoch fails e s =
     (let s' = called (EvUpdate e) s in
      case open_tx (chainDB s') of
        None \<Rightarrow> (Some (Err ''no transaction''), s')
      | Some t \<Rightarrow>
          if fails then (Some (Err ''update''), s')
          else (None, s'\<lparr>chainDB := (chainDB s')\<lparr>open_tx :=
                  Some (t\<lparr>tx_committees := tx_committees t @ [e]\<rparr>)\<rparr>\<rparr>))"

text \<open>Modelled from the spec: \<^verbatim>\<open>getMetadata\<close> and \<^verbatim>\<open>setMetadata\<close> are not part of the
  source file. The first reads the stored Progress Metadata, the second writes it in the
  open transaction.\<close>

definition getMetadata :: "bool \<Rightarrow> Service \<Rightarrow> error option \<times> metadata" where
  "getMetadata fails s =
     (if fails then (Some (Err ''metadata''), md_stored (chainDB s))
      else (None, md_stored (chainDB s)))"

definition setMetadata :: "bool \<Rightarrow> metadata \<Rightarrow> Service \<Rightarrow> error option \<times> Service" where
  "setMetadata fails md s =
     (let s' = called (EvSetMetadata (LatestEpoch md)) s in
      case open_tx (chainDB s') of
        None \<Rightarrow> (Some (Err ''no transaction''), s')
      | Some t \<Rightarrow>
          if fails then (Some (Err ''set metadata''), s')
          else (None, s'\<lparr>chainDB := (chainDB s')\<lparr>open_tx := Some (t\<lparr>tx_md := Some md\<rparr>)\<rparr>\<rparr>))"

text \<open>Modelled from the spec: the persistence engine's \<^verbatim>\<open>CommitTx\<close> and the cancel
  function that \<^verbatim>\<open>BeginTx\<close> returns are not part of the source file. A commit makes
  all writes of the open transaction durable at once, or fails and makes none durable;
  cancelling drops the open transaction with its writes.\<close>

definition CommitTx :: "bool \<Rightarrow> Service \<Rightarrow> error option \<times> Service" where
  "CommitTx fails s =
     (let s' = called EvCommitTx s in
      case open_tx (chainDB s') of
        None \<Rightarrow> (Some (Err ''no transaction''), s')
      | Some t \<Rightarrow>
          if fails then (Some (Err ''commit''), s')
          else (None, s'\<lparr>chainDB := \<lparr>
                  md_stored = (case tx_md t of None \<Rightarrow> md_stored (chainDB s') | Some md \<Rightarrow> md),
                  committees = committees (chainDB s') @ tx_committees t,
                  open_tx = None\<rparr>\<rparr>))"

definition cancel :: "Service \<Rightarrow> Service" where
  "cancel s = (let s' = called EvCancel s in s'\<lparr>chainDB := (chainDB s')\<lparr>open_tx := None\<rparr>\<rparr>)"

subsection \<open>The catch-up loop\<close>

text \<open>One pass through the body of the loop of \<^verbatim>\<open>catchup\<close>. The result says whether the
  loop goes on to the next epoch (\<open>True\<close>) or the function returns (\<open>False\<close>).\<close>

definition catchup_body :: "env \<Rightarrow> nat \<Rightarrow> epoch \<Rightarrow> metadata \<Rightarrow> Service \<Rightarrow> bool \<times> metadata \<times> Service" where
  "catchup_body env n epoch md s =
     (case BeginTx (step_fails env n StBeginTx) s of
        (Some err, s1) \<Rightarrow>
          (False, md, logmsg ErrorLevel ''Failed to begin transaction on update after restart'' s1)
      | (None, s1) \<Rightarrow>
     (case updateBeaconCommitteesForEpoch (step_fails env n StUpdate) epoch s1 of
        (Some err, s2) \<Rightarrow>
          (False, md, cancel (logmsg WarnLevel ''Failed to update beacon committees'' s2))
      | (None, s2) \<Rightarrow>
     (let md' = md\<lparr>LatestEpoch := epoch\<rparr> in
      case setMetadata (step_fails env n StSetMetadata) md' s2 of
        (Some err, s3) \<Rightarrow>
          (False, md', cancel (logmsg ErrorLevel ''Failed to set metadata'' s3))
      | (None, s3) \<Rightarrow>
     (case CommitTx (step_fails env n StCommitTx) s3 of
        (Some err, s4) \<Rightarrow>
          (False, md', cancel (logmsg ErrorLevel ''Failed to commit transaction'' s4))
      | (None, s4) \<Rightarrow> (True, md', s4)))))"

text \<open>The loop itself: \<^verbatim>\<open>for epoch := md.LatestEpoch; epoch <= CurrentEpoch(); epoch++\<close>.
  The counter is a \<^verbatim>\<open>uint64\<close>, so \<open>epoch + 1\<close> wraps; a loop that never ends has the
  value \<open>None\<close>.\<close>

partial_function (option) catchup_loop ::
  "env \<Rightarrow> nat \<Rightarrow> epoch \<Rightarrow> metadata \<Rightarrow> Service \<Rightarrow> (metadata \<times> Service) option" where
  "catchup_loop env n epoch md s =
     (if epoch \<le> CurrentEpoch env n then
        (let (continue, md', s') = catchup_body env n epoch md s in
         if continue then catchup_loop env (Suc n) (epoch + 1) md' s'
         else Some (md', s'))
      else Some (md, s))"

definition catchup :: "env \<Rightarrow> metadata \<Rightarrow> Service \<Rightarrow> (metadata \<times> Service) option" where
  "catchup env md s = catchup_loop env 0 (LatestEpoch md) md s"

text \<open>The same loop cut off after at most \<open>j\<close> passes: the state the loop has reached by
  then, and whether the function has returned.\<close>

fun catchup_prefix ::
  "env \<Rightarrow> nat \<Rightarrow> nat \<Rightarrow> epoch \<Rightarrow> metadata \<Rightarrow> Service \<Rightarrow> bool \<times> metadata \<times> Service" where
  "catchup_prefix env 0 n epoch md s = (False, md, s)"
| "catchup_prefix env (Suc j) n epoch md s =
     (if epoch \<le> CurrentEpoch env n then
        (let (continue, md', s') = catchup_body env n epoch md s in
         if continue then catchup_prefix env j (Suc n) (epoch + 1) md' s'
         else (True, md', s'))
      else (True, md, s))"

subsection \<open>Startup\<close>

text \<open>Lines 80 to 86 of \<^verbatim>\<open>updateAfterRestart\<close>: the metadata the catch-up starts from.\<close>

definition resume_metadata :: "int64 \<Rightarrow> metadata \<Rightarrow> metadata" where
  "resume_metadata startEpoch md =
     (if 0 \<le>s startEpoch then md\<lparr>LatestEpoch := startEpoch\<rparr>
      else if 0 < LatestEpoch md then md\<lparr>LatestEpoch := LatestEpoch md + 1\<rparr>
      else md)"

text \<open>\<^verbatim>\<open>log.Fatal\<close> ends the process (\<open>Exited\<close>); a type assertion on a client that
  provides no events and a release of more than is held panic (\<open>Panicked\<close>).\<close>

definition updateAfterRestart :: "env \<Rightarrow> int64 \<Rightarrow> Service \<Rightarrow> (exit \<times> Service) option" where
  "updateAfterRestart env startEpoch s =
     (case getMetadata (getMetadata_fails env) s of
        (Some err, md0) \<Rightarrow>
          Some (Exited, logmsg FatalLevel ''Failed to obtain metadata before catchup'' s)
      | (None, md0) \<Rightarrow>
     (let md = resume_metadata startEpoch md0;
          s1 = logmsg InfoLevel ''Catching up from epoch'' s;
          (acquired, sem1) = TryAcquire 1 (activitySem s1);
          s2 = called (EvTryAcquire acquired) (s1\<lparr>activitySem := sem1\<rparr>)
      in if \<not> acquired then
           Some (Returned,
             logmsg ErrorLevel ''Failed to obtain activity semaphore; catchup deferred'' s2)
         else
     (case catchup env md s2 of
        None \<Rightarrow> None
      | Some (md', s3) \<Rightarrow>
     (case Release 1 (activitySem s3) of
        None \<Rightarrow> Some (Panicked, called EvRelease s3)
      | Some sem2 \<Rightarrow>
     (let s4 = called EvRelease (s3\<lparr>activitySem := sem2\<rparr>) in
      if \<not> isEventsProvider env then Some (Panicked, s4)
      else
        (let s5 = called EvEvents s4 in
         if Events_fails env then
           Some (Exited,
             logmsg FatalLevel ''Failed to add beacon chain head updated handler'' s5)
         else Some (Returned, s5\<lparr>headHandlers := Suc (headHandlers s5)\<rparr>)))))))"


subsection \<open>Vocabulary of the properties\<close>

text \<open>No call of the \<open>n\<close>-th pass through the loop returns an error.\<close>

definition iter_ok :: "env \<Rightarrow> nat \<Rightarrow> bool" where
  "iter_ok env n \<longleftrightarrow>
     \<not> step_fails env n StBeginTx \<and> \<not> step_fails env n StUpdate \<and>
     \<not> step_fails env n StSetMetadata \<and> \<not> step_fails env n StCommitTx"

text \<open>The \<open>k\<close> epochs the counter takes from \<open>e\<close> on (in \<^verbatim>\<open>uint64\<close> arithmetic).\<close>

fun seg :: "epoch \<Rightarrow> nat \<Rightarrow> epoch list" where
  "seg e 0 = []"
| "seg e (Suc k) = e # seg (e + 1) k"

text \<open>The epochs from \<open>a\<close> to \<open>b\<close>, both included, in ascending order.\<close>

definition epochs_between :: "epoch \<Rightarrow> epoch \<Rightarrow> epoch list" where
  "epochs_between a b = map of_nat [unat a..<Suc (unat b)]"

text \<open>The epochs from \<open>a\<close> up to, but not including, \<open>b\<close>, in ascending order.\<close>

definition epochs_range :: "epoch \<Rightarrow> epoch \<Rightarrow> epoch list" where
  "epochs_range a b = map of_nat [unat a..<unat b]"

text \<open>The calls of a pass that commits epoch \<open>e\<close>: one transaction, opened, written and committed.\<close>

definition tx_trace :: "epoch \<Rightarrow> event list" where
  "tx_trace e = [EvBeginTx, EvUpdate e, EvSetMetadata e, EvCommitTx]"

text \<open>The calls of a pass that stops at its first failing call.\<close>

definition fail_trace :: "env \<Rightarrow> nat \<Rightarrow> epoch \<Rightarrow> event list" where
  "fail_trace env n e =
     (if step_fails env n StBeginTx then
        [EvBeginTx, EvLog ErrorLevel ''Failed to begin transaction on update after restart'']
      else if step_fails env n StUpdate then
        [EvBeginTx, EvUpdate e, EvLog WarnLevel ''Failed to update beacon committees'', EvCancel]
      else if step_fails env n StSetMetadata then
        [EvBeginTx, EvUpdate e, EvSetMetadata e, EvLog ErrorLevel ''Failed to set metadata'',
         EvCancel]
      else
        [EvBeginTx, EvUpdate e, EvSetMetadata e, EvCommitTx,
         EvLog ErrorLevel ''Failed to commit transaction'', EvCancel])"

text \<open>The state after a pass that commits epoch \<open>e\<close>.\<close>

definition commit_epoch :: "epoch \<Rightarrow> Service \<Rightarrow> Service" where
  "commit_epoch e s =
     s\<lparr>chainDB := \<lparr>md_stored = \<lparr>LatestEpoch = e\<rparr>,
                    committees = committees (chainDB s) @ [e], open_tx = None\<rparr>,
       trace := trace s @ tx_trace e\<rparr>"

text \<open>The metadata after the epochs \<open>es\<close> have been processed.\<close>

definition md_after :: "metadata \<Rightarrow> epoch list \<Rightarrow> metadata" where
  "md_after md es = (if es = [] then md else \<lparr>LatestEpoch = last es\<rparr>)"

text \<open>A list of calls with none on the semaphore and none on the event stream.\<close>

definition quiet :: "event list \<Rightarrow> bool" where
  "quiet t \<longleftrightarrow> (\<forall>ev \<in> set t. ev \<noteq> EvEvents \<and> ev \<noteq> EvRelease \<and> (\<forall>b. ev \<noteq> EvTryAcquire b))"

text \<open>The service after the log line of line 88 and a \<open>TryAcquire\<close> that was admitted.\<close>

definition acquired_state :: "Service \<Rightarrow> Service" where
  "acquired_state s =
     s\<lparr>activitySem := (activitySem s)\<lparr>sem_cur := sem_cur (activitySem s) + 1\<rparr>,
       trace := trace s @ [EvLog InfoLevel ''Catching up from epoch'', EvTryAcquire True]\<rparr>"

text \<open>The service after the \<open>Release\<close> of line 96, when it had state \<open>s\<close> before the permit was taken.\<close>

definition released_state :: "Service \<Rightarrow> Service \<Rightarrow> Service" where
  "released_state s s3 = s3\<lparr>activitySem := activitySem s, trace := trace s3 @ [EvRelease]\<rparr>"

text \<open>Lines 99 to 104: the subscription to head events and its three outcomes.\<close>

definition subscribe :: "env \<Rightarrow> Service \<Rightarrow> exit \<times> Service" where
  "subscribe env s =
     (if \<not> isEventsProvider env then (Panicked, s)
      else if Events_fails env then
        (Exited, s\<lparr>trace := trace s @
           [EvEvents, EvLog FatalLevel ''Failed to add beacon chain head updated handler'']\<rparr>)
      else (Returned, s\<lparr>headHandlers := Suc (headHandlers s), trace := trace s @ [EvEvents]\<rparr>))"




text \<open>An environment in which no call fails and the current epoch stays at \<open>cur\<close>.\<close>

definition steady_env :: "epoch \<Rightarrow> env" where
  "steady_env cur = \<lparr>getMetadata_fails = False, CurrentEpoch = (\<lambda>n. cur),
     step_fails = (\<lambda>n st. False), isEventsProvider = True, Events_fails = False\<rparr>"

text \<open>The same, but call \<open>st\<close> of pass \<open>k\<close> fails.\<close>

definition failing_env :: "epoch \<Rightarrow> nat \<Rightarrow> step \<Rightarrow> env" where
  "failing_env cur k st = (steady_env cur)\<lparr>step_fails := (\<lambda>n x. n = k \<and> x = st)\<rparr>"

text \<open>A service whose database holds no committees and the stored metadata \<open>l\<close>.\<close>

definition service_at :: "epoch \<Rightarrow> Service" where
  "service_at l = \<lparr>chainDB = \<lparr>md_stored = \<lparr>LatestEpoch = l\<rparr>, committees = [], open_tx = None\<rparr>,
     activitySem = NewWeighted 1, headHandlers = 0, trace = []\<rparr>"


text \<open>The semaphore seen by a client holding the permit.\<close>

definition held :: "Weighted" where
  "held = \<lparr>sem_size = 1, sem_cur = 1\<rparr>"

text \<open>The epochs a run commits in \<open>steady_env cur\<close> when started with \<open>se\<close> on \<open>s\<close>.\<close>

definition steady_epochs :: "epoch \<Rightarrow> int64 \<Rightarrow> Service \<Rightarrow> epoch list" where
  "steady_epochs cur se s =
     (if cur < LatestEpoch (resume_metadata se (md_stored (chainDB s))) then []
      else epochs_between (LatestEpoch (resume_metadata se (md_stored (chainDB s)))) cur)"

section \<open>Lemmas\<close>

subsection \<open>The body of the loop\<close>

lemmas db_defs = BeginTx_def updateBeaconCommitteesForEpoch_def setMetadata_def CommitTx_def
  cancel_def called_def logmsg_def

lemma catchup_body_ok:
  "iter_ok env n \<Longrightarrow>
   catchup_body env n e md s = (True, \<lparr>LatestEpoch = e\<rparr>, commit_epoch e s)"
  by (simp add: catchup_body_def iter_ok_def db_defs commit_epoch_def tx_trace_def Let_def)

lemma catchup_body_continue:
  "catchup_body env n e md s = (True, md', s') \<Longrightarrow> iter_ok env n"
  by (auto simp: catchup_body_def iter_ok_def db_defs Let_def split: if_splits option.splits)

lemma catchup_body_not_ok:
  "\<not> iter_ok env n \<Longrightarrow> fst (catchup_body env n e md s) = False"
  by (auto simp: catchup_body_def iter_ok_def db_defs Let_def split: if_splits option.splits)

subsection \<open>Runs of successful passes\<close>

lemma md_after_Cons: "md_after md (e # es) = md_after \<lparr>LatestEpoch = e\<rparr> es"
  by (simp add: md_after_def)

lemma seg_snoc: "seg e (Suc k) = seg e k @ [e + of_nat k]"
proof (induction k arbitrary: e)
  case 0
  show ?case by simp
next
  case (Suc k)
  have "seg e (Suc (Suc k)) = e # seg (e + 1) (Suc k)" by simp
  also have "\<dots> = e # (seg (e + 1) k @ [e + 1 + of_nat k])" by (simp only: Suc.IH)
  also have "\<dots> = seg e (Suc k) @ [e + of_nat (Suc k)]" by (simp add: add.assoc)
  finally show ?case .
qed

lemma length_seg: "length (seg e k) = k"
  by (induction k arbitrary: e) simp_all

lemma loop_ok_run:
  "(\<forall>i<k. iter_ok env (n + i) \<and> e + of_nat i \<le> CurrentEpoch env (n + i)) \<Longrightarrow>
   catchup_loop env n e md s =
   catchup_loop env (n + k) (e + of_nat k) (md_after md (seg e k)) (fold commit_epoch (seg e k) s)"
proof (induction k arbitrary: n e md s)
  case 0
  show ?case by (simp add: md_after_def)
next
  case (Suc k)
  have ok0: "iter_ok env n" and c0: "e \<le> CurrentEpoch env n"
    using Suc.prems [rule_format, of 0] by simp_all
  have rest: "\<forall>i<k. iter_ok env (Suc n + i) \<and> (e + 1) + of_nat i \<le> CurrentEpoch env (Suc n + i)"
  proof (intro allI impI)
    fix i assume "i < k"
    then have "Suc i < Suc k" by simp
    with Suc.prems have "iter_ok env (n + Suc i) \<and> e + of_nat (Suc i) \<le> CurrentEpoch env (n + Suc i)"
      by blast
    then show "iter_ok env (Suc n + i) \<and> (e + 1) + of_nat i \<le> CurrentEpoch env (Suc n + i)"
      by (simp add: ac_simps)
  qed
  have "catchup_loop env n e md s = catchup_loop env (Suc n) (e + 1) \<lparr>LatestEpoch = e\<rparr> (commit_epoch e s)"
    by (subst catchup_loop.simps) (simp add: c0 catchup_body_ok [OF ok0])
  also have "\<dots> = catchup_loop env (Suc n + k) ((e + 1) + of_nat k)
      (md_after \<lparr>LatestEpoch = e\<rparr> (seg (e + 1) k)) (fold commit_epoch (seg (e + 1) k) (commit_epoch e s))"
    by (rule Suc.IH [OF rest])
  finally show ?case
    by (simp add: md_after_Cons ac_simps)
qed

lemma prefix_ok_run:
  "(\<forall>i<k. iter_ok env (n + i) \<and> e + of_nat i \<le> CurrentEpoch env (n + i)) \<Longrightarrow>
   catchup_prefix env (k + j) n e md s =
   catchup_prefix env j (n + k) (e + of_nat k) (md_after md (seg e k)) (fold commit_epoch (seg e k) s)"
proof (induction k arbitrary: n e md s)
  case 0
  show ?case by (simp add: md_after_def)
next
  case (Suc k)
  have ok0: "iter_ok env n" and c0: "e \<le> CurrentEpoch env n"
    using Suc.prems [rule_format, of 0] by simp_all
  have rest: "\<forall>i<k. iter_ok env (Suc n + i) \<and> (e + 1) + of_nat i \<le> CurrentEpoch env (Suc n + i)"
  proof (intro allI impI)
    fix i assume "i < k"
    then have "Suc i < Suc k" by simp
    with Suc.prems have "iter_ok env (n + Suc i) \<and> e + of_nat (Suc i) \<le> CurrentEpoch env (n + Suc i)"
      by blast
    then show "iter_ok env (Suc n + i) \<and> (e + 1) + of_nat i \<le> CurrentEpoch env (Suc n + i)"
      by (simp add: ac_simps)
  qed
  have "catchup_prefix env (Suc k + j) n e md s = catchup_prefix env (k + j) (Suc n) (e + 1) \<lparr>LatestEpoch = e\<rparr> (commit_epoch e s)"
    by (simp add: c0 catchup_body_ok [OF ok0])
  also have "\<dots> = catchup_prefix env j (Suc n + k) ((e + 1) + of_nat k)
      (md_after \<lparr>LatestEpoch = e\<rparr> (seg (e + 1) k)) (fold commit_epoch (seg (e + 1) k) (commit_epoch e s))"
    by (rule Suc.IH [OF rest])
  finally show ?case
    by (simp add: md_after_Cons ac_simps)
qed

subsection \<open>The loop and its bounded form\<close>

lemma loop_to_prefix:
  assumes "catchup_loop env n e md s = Some r"
  shows "\<exists>j. catchup_prefix env j n e md s = (True, r)"
proof (rule catchup_loop.raw_induct
    [where P = "\<lambda>env n e md s r. \<exists>j. catchup_prefix env j n e md s = (True, r)", OF _ assms])
  fix f env n e md s r
  assume IH: "\<And>env n e md s r. f env n e md s = Some r \<Longrightarrow>
                \<exists>j. catchup_prefix env j n e md s = (True, r)"
    and body: "(if e \<le> CurrentEpoch env n
         then let (continue, md', s') = catchup_body env n e md s
              in if continue then f env (Suc n) (e + 1) md' s' else Some (md', s')
         else Some (md, s)) = Some r"
  show "\<exists>j. catchup_prefix env j n e md s = (True, r)"
  proof (cases "e \<le> CurrentEpoch env n")
    case False
    with body have "catchup_prefix env (Suc 0) n e md s = (True, r)" by simp
    then show ?thesis by blast
  next
    case True
    obtain c md1 s1 where b: "catchup_body env n e md s = (c, md1, s1)"
      by (cases "catchup_body env n e md s") auto
    show ?thesis
    proof (cases c)
      case True
      with body \<open>e \<le> CurrentEpoch env n\<close> b have "f env (Suc n) (e + 1) md1 s1 = Some r" by simp
      from IH [OF this] obtain j where "catchup_prefix env j (Suc n) (e + 1) md1 s1 = (True, r)" ..
      with True \<open>e \<le> CurrentEpoch env n\<close> b have "catchup_prefix env (Suc j) n e md s = (True, r)" by simp
      then show ?thesis by blast
    next
      case False
      with body \<open>e \<le> CurrentEpoch env n\<close> b have "catchup_prefix env (Suc 0) n e md s = (True, r)" by simp
      then show ?thesis by blast
    qed
  qed
qed

lemma prefix_to_loop:
  "catchup_prefix env j n e md s = (True, r) \<Longrightarrow> catchup_loop env n e md s = Some r"
proof (induction j arbitrary: n e md s)
  case 0
  then show ?case by simp
next
  case (Suc j)
  show ?case
  proof (cases "e \<le> CurrentEpoch env n")
    case False
    with Suc.prems show ?thesis by (subst catchup_loop.simps) simp
  next
    case True
    obtain c md1 s1 where b: "catchup_body env n e md s = (c, md1, s1)"
      by (cases "catchup_body env n e md s") auto
    show ?thesis
    proof (cases c)
      case True
      with Suc.prems \<open>e \<le> CurrentEpoch env n\<close> b
      have "catchup_prefix env j (Suc n) (e + 1) md1 s1 = (True, r)" by simp
      then have "catchup_loop env (Suc n) (e + 1) md1 s1 = Some r" by (rule Suc.IH)
      with True \<open>e \<le> CurrentEpoch env n\<close> b show ?thesis by (subst catchup_loop.simps) simp
    next
      case False
      with Suc.prems \<open>e \<le> CurrentEpoch env n\<close> b show ?thesis by (subst catchup_loop.simps) simp
    qed
  qed
qed

subsection \<open>The state after committed epochs\<close>

lemma fold_commit_committees:
  "committees (chainDB (fold commit_epoch es s)) = committees (chainDB s) @ es"
  by (induction es arbitrary: s) (simp_all add: commit_epoch_def)

lemma fold_commit_md:
  "md_stored (chainDB (fold commit_epoch es s)) = md_after (md_stored (chainDB s)) es"
  by (induction es arbitrary: s) (simp_all add: md_after_def commit_epoch_def)

lemma fold_commit_trace:
  "trace (fold commit_epoch es s) = trace s @ concat (map tx_trace es)"
  by (induction es arbitrary: s) (simp_all add: commit_epoch_def)

lemma fold_commit_sem: "activitySem (fold commit_epoch es s) = activitySem s"
  by (induction es arbitrary: s) (simp_all add: commit_epoch_def)

lemma fold_commit_handlers: "headHandlers (fold commit_epoch es s) = headHandlers s"
  by (induction es arbitrary: s) (simp_all add: commit_epoch_def)

lemma fold_commit_open_tx:
  "open_tx (chainDB (fold commit_epoch es s)) = (if es = [] then open_tx (chainDB s) else None)"
  by (induction es arbitrary: s) (simp_all add: commit_epoch_def)

subsection \<open>Arithmetic of epochs\<close>

lemma unat_succ: "(e :: epoch) \<noteq> - 1 \<Longrightarrow> unat (e + 1) = Suc (unat e)"
  by (simp add: add.commute add_eq_0_iff unatSuc)

lemma unat_max: "unat (e :: epoch) < 2 ^ 64 - 1 \<longleftrightarrow> e \<noteq> - 1"
proof -
  have m: "unat (- 1 :: epoch) = 2 ^ 64 - 1"
    by (simp add: unsigned_minus_1_eq_mask mask_eq_exp_minus_1)
  have lt: "unat e < 2 ^ 64" using unsigned_less [of e] by simp
  have "e \<noteq> - 1 \<longleftrightarrow> unat e \<noteq> unat (- 1 :: epoch)" by (simp only: word_unat_eq_iff)
  with m lt show ?thesis by (simp, arith)
qed

lemma unat_add_nat:
  assumes "unat (e :: epoch) + k \<le> 2 ^ 64 - 1"
  shows "unat (e + of_nat k) = unat e + k"
proof -
  from assms have k: "k < 2 ^ 64" by simp
  then have uk: "unat (of_nat k :: epoch) = k" by (simp add: unat_of_nat)
  from assms have "unat e + unat (of_nat k :: epoch) < 2 ^ LENGTH(64)" by (simp add: uk)
  then have "unat (e + of_nat k) = unat e + unat (of_nat k :: epoch)" by (simp only: unat_add_lem)
  then show ?thesis by (simp only: uk)
qed

lemma seg_upt:
  "unat e + k \<le> 2 ^ 64 \<Longrightarrow> seg e k = map of_nat [unat e..<unat e + k]"
proof (induction k arbitrary: e)
  case 0
  show ?case by simp
next
  case (Suc k)
  show ?case
  proof (cases k)
    case 0
    then show ?thesis by (simp add: upt_conv_Cons)
  next
    case (Suc k')
    with Suc.prems have "unat e < 2 ^ 64 - 1" by simp
    then have ne: "e \<noteq> - 1" using unat_max [of e] by blast
    then have u: "unat (e + 1) = Suc (unat e)" by (rule unat_succ)
    with Suc.prems have "unat (e + 1) + k \<le> 2 ^ 64" by simp
    then have "seg (e + 1) k = map of_nat [unat (e + 1)..<unat (e + 1) + k]" by (rule Suc.IH)
    then have a: "seg e (Suc k) = e # map of_nat [Suc (unat e)..<Suc (unat e) + k]"
      by (simp only: seg.simps u)
    have "[unat e..<unat e + Suc k] = unat e # [Suc (unat e)..<unat e + Suc k]"
      by (rule upt_conv_Cons) simp
    then have b: "map of_nat [unat e..<unat e + Suc k] =
        (e :: epoch) # map of_nat [Suc (unat e)..<unat e + Suc k]"
      by simp
    have c: "Suc (unat e) + k = unat e + Suc k" by simp
    show ?thesis by (simp only: a b c)
  qed
qed

lemma no_wrap:
  assumes "\<forall>i<k. e + of_nat i \<le> CurrentEpoch env (n + i)"
    and "\<forall>i<k. CurrentEpoch env (n + i) \<noteq> - 1"
  shows "unat e + k \<le> 2 ^ 64 - 1"
  using assms
proof (induction k)
  case 0
  have "unat e < 2 ^ 64" using unsigned_less [of e] by simp
  then show ?case by simp
next
  case (Suc k)
  then have le: "unat e + k \<le> 2 ^ 64 - 1" by simp
  then have eq: "unat (e + of_nat k) = unat e + k" by (rule unat_add_nat)
  have "e + of_nat k \<le> CurrentEpoch env (n + k)" and "CurrentEpoch env (n + k) \<noteq> - 1"
    using Suc.prems by simp_all
  then have "e + of_nat k \<noteq> - 1"
    by (metis word_order.extremum_unique)
  then have "unat (e + of_nat k) < 2 ^ 64 - 1" using unat_max [of "e + of_nat k"] by blast
  with eq show ?case by simp
qed

subsection \<open>Runs that end\<close>

lemma last_seg: "last (seg e (Suc k)) = e + of_nat k"
  by (simp only: seg_snoc last_snoc)

lemma seg_eq_Nil: "seg e k = [] \<longleftrightarrow> k = 0"
  by (cases k) simp_all

lemma catchup_empty:
  assumes "CurrentEpoch env 0 < LatestEpoch md"
  shows "catchup env md s = Some (md, s)"
proof -
  from assms have "\<not> LatestEpoch md \<le> CurrentEpoch env 0" by simp
  then show ?thesis unfolding catchup_def by (subst catchup_loop.simps) simp
qed

lemma catchup_loop_diverges:
  assumes ok: "\<forall>i. iter_ok env i" and cur: "\<forall>i. CurrentEpoch env i = - 1"
  shows "catchup_loop env n e md s = None"
proof (rule ccontr)
  assume "catchup_loop env n e md s \<noteq> None"
  then obtain r where "catchup_loop env n e md s = Some r" by auto
  then obtain j where j: "catchup_prefix env j n e md s = (True, r)"
    using loop_to_prefix by blast
  have "\<forall>i<j. iter_ok env (n + i) \<and> e + of_nat i \<le> CurrentEpoch env (n + i)"
    using ok cur by simp
  from prefix_ok_run [OF this, of 0] j show False by simp
qed

lemma catchup_all_ok:
  assumes ok: "\<forall>i. iter_ok env i" and cur: "\<forall>i. CurrentEpoch env i = cur"
    and le: "LatestEpoch md \<le> cur" and nm: "cur \<noteq> - 1"
  shows "catchup env md s =
    Some (\<lparr>LatestEpoch = cur\<rparr>,
          fold commit_epoch (map of_nat [unat (LatestEpoch md)..<Suc (unat cur)]) s)"
proof -
  let ?r = "LatestEpoch md"
  define k where "k = Suc (unat cur) - unat ?r"
  have ur: "unat ?r \<le> unat cur" using le by (simp add: word_le_nat_alt)
  have uc: "unat cur < 2 ^ 64 - 1" using nm unat_max [of cur] by blast
  have conds: "\<forall>i<k. iter_ok env (0 + i) \<and> ?r + of_nat i \<le> CurrentEpoch env (0 + i)"
  proof (intro allI impI conjI)
    fix i assume "i < k"
    then have b: "unat ?r + i \<le> unat cur" using ur by (simp add: k_def)
    with uc have "unat ?r + i \<le> 2 ^ 64 - 1" by simp
    then have "unat (?r + of_nat i) = unat ?r + i" by (rule unat_add_nat)
    with b show "?r + of_nat i \<le> CurrentEpoch env (0 + i)" by (simp add: cur word_le_nat_alt)
    show "iter_ok env (0 + i)" using ok by simp
  qed
  have rk: "unat ?r + k = Suc (unat cur)" using ur by (simp add: k_def)
  with uc have "unat ?r + k \<le> 2 ^ 64 - 1" by simp
  then have "unat (?r + of_nat k) = unat ?r + k" by (rule unat_add_nat)
  with rk have stop: "\<not> ?r + of_nat k \<le> CurrentEpoch env (0 + k)"
    by (simp add: cur word_le_nat_alt)
  from rk uc have "unat ?r + k \<le> 2 ^ 64" by simp
  then have "seg ?r k = map of_nat [unat ?r..<unat ?r + k]" by (rule seg_upt)
  with rk have segk: "seg ?r k = map of_nat [unat ?r..<Suc (unat cur)]" by simp
  obtain k' where k': "k = Suc k'" using rk ur by (cases k) simp_all
  with rk have "unat ?r + k' = unat cur" by simp
  moreover from this uc have "unat (?r + of_nat k') = unat ?r + k'" by (intro unat_add_nat) simp
  ultimately have "?r + of_nat k' = cur" by (simp add: word_unat_eq_iff)
  then have mdk: "md_after md (seg ?r k) = \<lparr>LatestEpoch = cur\<rparr>"
    unfolding k' md_after_def by (simp only: last_seg seg_eq_Nil) simp
  have "catchup env md s =
      catchup_loop env (0 + k) (?r + of_nat k) (md_after md (seg ?r k)) (fold commit_epoch (seg ?r k) s)"
    unfolding catchup_def by (rule loop_ok_run [OF conds])
  also have "\<dots> = Some (md_after md (seg ?r k), fold commit_epoch (seg ?r k) s)"
    using stop by (subst catchup_loop.simps) simp
  finally have "catchup env md s = Some (md_after md (seg ?r k), fold commit_epoch (seg ?r k) s)" .
  then have "catchup env md s = Some (\<lparr>LatestEpoch = cur\<rparr>, fold commit_epoch (seg ?r k) s)"
    by (simp only: mdk)
  then show ?thesis by (simp only: segk)
qed

lemma catchup_stops_at:
  assumes "\<forall>i<k. iter_ok env (0 + i) \<and> LatestEpoch md + of_nat i \<le> CurrentEpoch env (0 + i)"
    and "LatestEpoch md + of_nat k \<le> CurrentEpoch env k" and "\<not> iter_ok env k"
  shows "catchup env md s =
    Some (snd (catchup_body env k (LatestEpoch md + of_nat k) (md_after md (seg (LatestEpoch md) k))
                 (fold commit_epoch (seg (LatestEpoch md) k) s)))"
proof -
  let ?r = "LatestEpoch md"
  let ?b = "catchup_body env k (?r + of_nat k) (md_after md (seg ?r k)) (fold commit_epoch (seg ?r k) s)"
  have f: "fst ?b = False" using assms(3) by (rule catchup_body_not_ok)
  have "catchup env md s =
      catchup_loop env (0 + k) (?r + of_nat k) (md_after md (seg ?r k)) (fold commit_epoch (seg ?r k) s)"
    unfolding catchup_def by (rule loop_ok_run [OF assms(1)])
  also have "\<dots> = Some (snd ?b)"
    using assms(2) f by (subst catchup_loop.simps) (simp add: case_prod_beta)
  finally show ?thesis .
qed

lemma catchup_body_fail:
  assumes "\<not> iter_ok env n"
  shows "trace (snd (snd (catchup_body env n e md s))) = trace s @ fail_trace env n e"
    and "committees (chainDB (snd (snd (catchup_body env n e md s)))) = committees (chainDB s)"
    and "md_stored (chainDB (snd (snd (catchup_body env n e md s)))) = md_stored (chainDB s)"
    and "activitySem (snd (snd (catchup_body env n e md s))) = activitySem s"
    and "headHandlers (snd (snd (catchup_body env n e md s))) = headHandlers s"
    and "\<not> step_fails env n StBeginTx \<Longrightarrow>
           open_tx (chainDB (snd (snd (catchup_body env n e md s)))) = None"
  using assms
  by (auto simp: catchup_body_def iter_ok_def db_defs Let_def fail_trace_def)

lemma unat_of_nat_small: "n < 2 ^ 64 \<Longrightarrow> unat (of_nat n :: epoch) = n"
  by (simp add: unat_of_nat)

lemma set_epochs_between: "set (epochs_between a b) = {e. a \<le> e \<and> e \<le> b}"
proof (intro set_eqI iffI)
  fix e assume "e \<in> set (epochs_between a b)"
  then obtain n where n: "unat a \<le> n" "n \<le> unat b" "e = of_nat n"
    by (auto simp: epochs_between_def)
  have "unat b < 2 ^ 64" using unsigned_less [of b] by simp
  with n have "unat e = n" by (simp add: unat_of_nat_small)
  with n show "e \<in> {e. a \<le> e \<and> e \<le> b}" by (simp add: word_le_nat_alt)
next
  fix e assume "e \<in> {e. a \<le> e \<and> e \<le> b}"
  then have "unat a \<le> unat e" "unat e \<le> unat b" by (simp_all add: word_le_nat_alt)
  moreover have "e = of_nat (unat e)" by simp
  ultimately show "e \<in> set (epochs_between a b)"
    unfolding epochs_between_def by (metis atLeastLessThan_iff imageI le_imp_less_Suc list.set_map set_upt)
qed

lemma sorted_epochs_between: "sorted_wrt (<) (epochs_between a b)"
proof -
  have ub: "unat b < 2 ^ 64" using unsigned_less [of b] by simp
  have "sorted_wrt (\<lambda>m n. (of_nat m :: epoch) < of_nat n) [unat a..<Suc (unat b)]"
  proof (rule sorted_wrt_mono_rel [of _ "(<)"])
    fix m n assume "m \<in> set [unat a..<Suc (unat b)]" "n \<in> set [unat a..<Suc (unat b)]" "m < n"
    then have "m \<le> unat b" "n \<le> unat b"
      by (simp_all only: set_upt atLeastLessThan_iff less_Suc_eq_le)
    with ub have "m < 2 ^ 64" "n < 2 ^ 64" by simp_all
    then have "unat (of_nat m :: epoch) = m" "unat (of_nat n :: epoch) = n"
      by (simp_all add: unat_of_nat_small)
    with \<open>m < n\<close> show "(of_nat m :: epoch) < of_nat n" by (simp add: word_less_nat_alt)
  next
    show "sorted_wrt (<) [unat a..<Suc (unat b)]" by (rule sorted_wrt_upt)
  qed
  then show ?thesis by (simp add: epochs_between_def sorted_wrt_map)
qed

lemma word_add_diff: "(a::epoch) \<le> b \<Longrightarrow> a + of_nat (unat b - unat a) = b"
  using word_le_nat_alt nle_le by fastforce

lemma set_epochs_range: "set (epochs_range a b) = {e. a \<le> e \<and> e < b}"
proof (intro set_eqI iffI)
  fix e assume "e \<in> set (epochs_range a b)"
  then obtain n where n: "unat a \<le> n" "n < unat b" "e = of_nat n"
    by (auto simp: epochs_range_def)
  have "unat b < 2 ^ 64" using unsigned_less [of b] by simp
  with n have "unat e = n" by (simp add: unat_of_nat_small)
  with n show "e \<in> {e. a \<le> e \<and> e < b}" by (simp add: word_le_nat_alt word_less_nat_alt)
next
  fix e assume "e \<in> {e. a \<le> e \<and> e < b}"
  then have "unat a \<le> unat e" "unat e < unat b" by (simp_all add: word_le_nat_alt word_less_nat_alt)
  moreover have "e = of_nat (unat e)" by simp
  ultimately show "e \<in> set (epochs_range a b)"
    unfolding epochs_range_def by (metis atLeastLessThan_iff imageI list.set_map set_upt)
qed

lemma Update_in_tx_traces: "EvUpdate e \<in> set (concat (map tx_trace es)) \<longleftrightarrow> e \<in> set es"
  by (induction es) (auto simp: tx_trace_def)

lemma Update_in_fail_trace: "EvUpdate e \<in> set (fail_trace env n K) \<Longrightarrow> e = K"
  by (auto simp: fail_trace_def split: if_splits)

lemma catchup_fails:
  assumes le: "LatestEpoch md \<le> K"
    and cur: "\<forall>i. K \<le> CurrentEpoch env i"
    and ok: "\<forall>i < unat K - unat (LatestEpoch md). iter_ok env i"
    and bad: "\<not> iter_ok env (unat K - unat (LatestEpoch md))"
  shows "\<exists>md' s'. catchup env md s = Some (md', s') \<and>
      committees (chainDB s') = committees (chainDB s) @ epochs_range (LatestEpoch md) K \<and>
      md_stored (chainDB s') =
        (if K = LatestEpoch md then md_stored (chainDB s) else \<lparr>LatestEpoch = K - 1\<rparr>) \<and>
      trace s' = trace s @ concat (map tx_trace (epochs_range (LatestEpoch md) K)) @
                   fail_trace env (unat K - unat (LatestEpoch md)) K \<and>
      (\<not> step_fails env (unat K - unat (LatestEpoch md)) StBeginTx \<longrightarrow> open_tx (chainDB s') = None) \<and>
      activitySem s' = activitySem s \<and> headHandlers s' = headHandlers s"
proof -
  let ?r = "LatestEpoch md"
  define k where "k = unat K - unat ?r"
  have ur: "unat ?r \<le> unat K" using le by (simp add: word_le_nat_alt)
  have uK: "unat K < 2 ^ 64" using unsigned_less [of K] by simp
  have rk: "unat ?r + k = unat K" using ur by (simp add: k_def)
  have K: "?r + of_nat k = K" unfolding k_def using le by (rule word_add_diff)
  have conds: "\<forall>i<k. iter_ok env (0 + i) \<and> ?r + of_nat i \<le> CurrentEpoch env (0 + i)"
  proof (intro allI impI conjI)
    fix i assume i: "i < k"
    with rk uK have "unat ?r + i \<le> 2 ^ 64 - 1" by simp
    then have "unat (?r + of_nat i) = unat ?r + i" by (rule unat_add_nat)
    with i rk have "?r + of_nat i \<le> K" by (simp add: word_le_nat_alt)
    with cur show "?r + of_nat i \<le> CurrentEpoch env (0 + i)"
      by (metis order_trans)
    show "iter_ok env (0 + i)" using ok i by (simp add: k_def)
  qed
  from rk uK have "unat ?r + k \<le> 2 ^ 64" by simp
  then have "seg ?r k = map of_nat [unat ?r..<unat ?r + k]" by (rule seg_upt)
  with rk have segk: "seg ?r k = epochs_range ?r K" by (simp add: epochs_range_def)
  have mdk: "md_after (md_stored (chainDB s)) (seg ?r k) =
      (if K = ?r then md_stored (chainDB s) else \<lparr>LatestEpoch = K - 1\<rparr>)"
  proof (cases k)
    case 0
    with K show ?thesis by (simp add: md_after_def)
  next
    case (Suc k')
    with K have "?r + of_nat k' = K - 1" by (simp add: algebra_simps)
    moreover from Suc rk have "K \<noteq> ?r" by auto
    ultimately show ?thesis unfolding Suc md_after_def by (simp only: last_seg seg_eq_Nil) simp
  qed
  let ?sk = "fold commit_epoch (seg ?r k) s"
  let ?b = "catchup_body env k K (md_after md (seg ?r k)) ?sk"
  have "catchup env md s = Some (snd ?b)"
    using catchup_stops_at [of k env md s] conds cur bad K by (simp add: k_def)
  moreover obtain c md' s' where b: "?b = (c, md', s')" by (cases ?b) auto
  ultimately have r: "catchup env md s = Some (md', s')" by simp
  note f = catchup_body_fail [OF bad [folded k_def], of K "md_after md (seg ?r k)" ?sk, unfolded b snd_conv]
  have 1: "committees (chainDB s') = committees (chainDB s) @ epochs_range ?r K"
    using f(2) by (simp add: fold_commit_committees segk)
  have 2: "md_stored (chainDB s') =
      (if K = ?r then md_stored (chainDB s) else \<lparr>LatestEpoch = K - 1\<rparr>)"
    using f(3) mdk by (simp only: fold_commit_md)
  have 3: "trace s' = trace s @ concat (map tx_trace (epochs_range ?r K)) @ fail_trace env k K"
    using f(1) by (simp add: fold_commit_trace segk)
  have 4: "\<not> step_fails env k StBeginTx \<longrightarrow> open_tx (chainDB s') = None"
    using f(6) by simp
  have 5: "activitySem s' = activitySem s" "headHandlers s' = headHandlers s"
    using f(4,5) by (simp_all add: fold_commit_sem fold_commit_handlers)
  from r 1 2 3 4 5 show ?thesis unfolding k_def by blast
qed

subsection \<open>What every run leaves alone\<close>

lemma quiet_append: "quiet (t @ u) \<longleftrightarrow> quiet t \<and> quiet u"
  by (auto simp: quiet_def)

lemma quiet_tx_trace: "quiet (tx_trace e)"
  by (simp add: quiet_def tx_trace_def)

lemma catchup_body_quiet:
  "\<exists>t. trace (snd (snd (catchup_body env n e md s))) = trace s @ t \<and> quiet t"
  by (auto simp: catchup_body_def db_defs Let_def quiet_def)

lemma catchup_body_stop:
  assumes "\<not> fst (catchup_body env n e md s)"
  shows "committees (chainDB (snd (snd (catchup_body env n e md s)))) = committees (chainDB s)"
    and "md_stored (chainDB (snd (snd (catchup_body env n e md s)))) = md_stored (chainDB s)"
    and "activitySem (snd (snd (catchup_body env n e md s))) = activitySem s"
    and "headHandlers (snd (snd (catchup_body env n e md s))) = headHandlers s"
  using assms
  by (auto simp: catchup_body_def db_defs Let_def split: if_splits option.splits)

lemma prefix_effect:
  "\<exists>k t. (\<forall>i<k. e + of_nat i \<le> CurrentEpoch env (n + i)) \<and>
     committees (chainDB (snd (snd (catchup_prefix env j n e md s)))) =
       committees (chainDB s) @ seg e k \<and>
     md_stored (chainDB (snd (snd (catchup_prefix env j n e md s)))) =
       md_after (md_stored (chainDB s)) (seg e k) \<and>
     activitySem (snd (snd (catchup_prefix env j n e md s))) = activitySem s \<and>
     headHandlers (snd (snd (catchup_prefix env j n e md s))) = headHandlers s \<and>
     trace (snd (snd (catchup_prefix env j n e md s))) = trace s @ t \<and> quiet t"
proof (induction j arbitrary: n e md s)
  case 0
  have "(\<forall>i<0::nat. e + of_nat i \<le> CurrentEpoch env (n + i)) \<and>
     committees (chainDB (snd (snd (catchup_prefix env 0 n e md s)))) =
       committees (chainDB s) @ seg e 0 \<and>
     md_stored (chainDB (snd (snd (catchup_prefix env 0 n e md s)))) =
       md_after (md_stored (chainDB s)) (seg e 0) \<and>
     activitySem (snd (snd (catchup_prefix env 0 n e md s))) = activitySem s \<and>
     headHandlers (snd (snd (catchup_prefix env 0 n e md s))) = headHandlers s \<and>
     trace (snd (snd (catchup_prefix env 0 n e md s))) = trace s @ [] \<and> quiet []"
    by (simp add: md_after_def quiet_def)
  then show ?case by blast
next
  case (Suc j)
  let ?P = "\<lambda>k t s'. (\<forall>i<k. e + of_nat i \<le> CurrentEpoch env (n + i)) \<and>
     committees (chainDB s') = committees (chainDB s) @ seg e k \<and>
     md_stored (chainDB s') = md_after (md_stored (chainDB s)) (seg e k) \<and>
     activitySem s' = activitySem s \<and> headHandlers s' = headHandlers s \<and>
     trace s' = trace s @ t \<and> quiet t"
  show ?case
  proof (cases "e \<le> CurrentEpoch env n")
    case False
    then have "?P 0 [] (snd (snd (catchup_prefix env (Suc j) n e md s)))"
      by (simp add: md_after_def quiet_def)
    then show ?thesis by blast
  next
    case cond: True
    obtain c md1 s1 where b: "catchup_body env n e md s = (c, md1, s1)"
      by (cases "catchup_body env n e md s") auto
    show ?thesis
    proof (cases c)
      case False
      with b cond have r: "snd (snd (catchup_prefix env (Suc j) n e md s)) = s1" by simp
      from False b have nf: "\<not> fst (catchup_body env n e md s)" by simp
      from catchup_body_quiet [of env n e md s] b obtain t where t: "trace s1 = trace s @ t" "quiet t"
        by auto
      from catchup_body_stop [OF nf] b t have "?P 0 t s1" by (simp add: md_after_def)
      with r show ?thesis by metis
    next
      case True
      with b have ok: "iter_ok env n" by (auto dest: catchup_body_continue)
      from catchup_body_ok [OF ok, of e md s] b
      have md1: "md1 = \<lparr>LatestEpoch = e\<rparr>" and s1: "s1 = commit_epoch e s" by simp_all
      from True b cond have r: "catchup_prefix env (Suc j) n e md s =
          catchup_prefix env j (Suc n) (e + 1) md1 s1" by simp
      let ?s' = "snd (snd (catchup_prefix env j (Suc n) (e + 1) md1 s1))"
      from Suc.IH [of "e + 1" "Suc n" md1 s1] obtain k t where
        IH: "\<forall>i<k. e + 1 + of_nat i \<le> CurrentEpoch env (Suc n + i)"
          "committees (chainDB ?s') = committees (chainDB s1) @ seg (e + 1) k"
          "md_stored (chainDB ?s') = md_after (md_stored (chainDB s1)) (seg (e + 1) k)"
          "activitySem ?s' = activitySem s1" "headHandlers ?s' = headHandlers s1"
          "trace ?s' = trace s1 @ t" "quiet t"
        by blast
      have c: "\<forall>i<Suc k. e + of_nat i \<le> CurrentEpoch env (n + i)"
      proof (intro allI impI)
        fix i assume i: "i < Suc k"
        show "e + of_nat i \<le> CurrentEpoch env (n + i)"
        proof (cases i)
          case 0
          with cond show ?thesis by simp
        next
          case (Suc i')
          with i IH(1) have "e + 1 + of_nat i' \<le> CurrentEpoch env (Suc n + i')" by simp
          with Suc show ?thesis by (simp add: ac_simps)
        qed
      qed
      have "?P (Suc k) (tx_trace e @ t) ?s'"
        using c IH(2-7)
        by (simp add: s1 commit_epoch_def md_after_Cons quiet_append quiet_tx_trace)
      with r show ?thesis by metis
    qed
  qed
qed

lemma catchup_effect:
  assumes "catchup env md s = Some (md', s')"
  shows "\<exists>k t. (\<forall>i<k. LatestEpoch md + of_nat i \<le> CurrentEpoch env i) \<and>
     committees (chainDB s') = committees (chainDB s) @ seg (LatestEpoch md) k \<and>
     md_stored (chainDB s') = md_after (md_stored (chainDB s)) (seg (LatestEpoch md) k) \<and>
     activitySem s' = activitySem s \<and> headHandlers s' = headHandlers s \<and>
     trace s' = trace s @ t \<and> quiet t"
proof -
  from assms obtain j where "catchup_prefix env j 0 (LatestEpoch md) md s = (True, md', s')"
    unfolding catchup_def using loop_to_prefix by blast
  with prefix_effect [of "LatestEpoch md" env 0 j md s] show ?thesis by simp
qed

subsection \<open>Signed start epochs, and the highest of a sorted list\<close>

lemma uint_eq_sint:
  assumes "0 \<le> sint (x :: 64 word)"
  shows "uint x = sint x"
proof -
  have "sint x < 2 ^ (LENGTH(64) - 1)" by (rule sint_lt)
  then have lt: "sint x < 2 ^ 64" by simp
  have "uint x = uint (word_of_int (sint x) :: 64 word)" by simp
  also have "\<dots> = sint x mod 2 ^ 64" by (simp only: uint_word_of_int) simp
  also have "\<dots> = sint x" using assms lt by simp
  finally show ?thesis .
qed

lemma Max_last:
  assumes "sorted_wrt (<) es" and "es \<noteq> []"
  shows "Max (set es) = last (es :: epoch list)"
proof (rule Max_eqI)
  show "finite (set es)" by simp
  show "last es \<in> set es" using assms(2) by simp
  fix y assume y: "y \<in> set es"
  from assms(2) have "es = butlast es @ [last es]" by simp
  with assms(1) have "sorted_wrt (<) (butlast es @ [last es])" by simp
  then have "\<forall>z \<in> set (butlast es). z < last es" by (simp add: sorted_wrt_append)
  moreover from y \<open>es = butlast es @ [last es]\<close> have "y \<in> set (butlast es) \<or> y = last es"
    by (metis Un_iff insert_iff list.set(2) set_append empty_iff list.set(1))
  ultimately show "y \<le> last es" by auto
qed

subsection \<open>The startup routine\<close>

lemma uar_getMetadata_fails:
  "getMetadata_fails env \<Longrightarrow>
   updateAfterRestart env se s =
     Some (Exited, logmsg FatalLevel ''Failed to obtain metadata before catchup'' s)"
  by (simp add: updateAfterRestart_def getMetadata_def)

lemma uar_denied:
  "\<not> getMetadata_fails env \<Longrightarrow> \<not> fst (TryAcquire 1 (activitySem s)) \<Longrightarrow>
   updateAfterRestart env se s =
     Some (Returned, s\<lparr>trace := trace s @
       [EvLog InfoLevel ''Catching up from epoch'', EvTryAcquire False,
        EvLog ErrorLevel ''Failed to obtain activity semaphore; catchup deferred'']\<rparr>)"
  by (simp add: updateAfterRestart_def getMetadata_def TryAcquire_def logmsg_def called_def
      Let_def split: if_splits)

lemma uar_acquired:
  assumes "\<not> getMetadata_fails env" and "fst (TryAcquire 1 (activitySem s))"
  shows "updateAfterRestart env se s =
     (case catchup env (resume_metadata se (md_stored (chainDB s))) (acquired_state s) of
        None \<Rightarrow> None
      | Some (md', s3) \<Rightarrow> Some (subscribe env (released_state s s3)))"
proof -
  let ?md = "resume_metadata se (md_stored (chainDB s))"
  from assms(2) have acq: "TryAcquire 1 (activitySem s) =
      (True, (activitySem s)\<lparr>sem_cur := sem_cur (activitySem s) + 1\<rparr>)"
    by (simp add: TryAcquire_def split: if_splits)
  have u: "updateAfterRestart env se s =
     (case catchup env ?md (acquired_state s) of
        None \<Rightarrow> None
      | Some (md', s3) \<Rightarrow>
         (case Release 1 (activitySem s3) of
            None \<Rightarrow> Some (Panicked, called EvRelease s3)
          | Some sem2 \<Rightarrow>
             (let s4 = called EvRelease (s3\<lparr>activitySem := sem2\<rparr>) in
              if \<not> isEventsProvider env then Some (Panicked, s4)
              else
                (let s5 = called EvEvents s4 in
                 if Events_fails env then
                   Some (Exited,
                     logmsg FatalLevel ''Failed to add beacon chain head updated handler'' s5)
                 else Some (Returned, s5\<lparr>headHandlers := Suc (headHandlers s5)\<rparr>)))))"
    using assms(1)
    by (simp add: updateAfterRestart_def getMetadata_def acq logmsg_def [of InfoLevel]
        called_def [of "EvTryAcquire True"] acquired_state_def del: One_nat_def)
  show ?thesis
  proof (cases "catchup env ?md (acquired_state s)")
    case None
    with u show ?thesis by simp
  next
    case (Some r)
    obtain md' s3 where r: "r = (md', s3)" by (cases r)
    from catchup_effect [OF Some [unfolded r]]
    have sem: "activitySem s3 = activitySem (acquired_state s)" by blast
    then have rel: "Release 1 (activitySem s3) = Some (activitySem s)"
      by (simp add: Release_def acquired_state_def)
    show ?thesis
      unfolding u Some r
      by (simp add: rel subscribe_def released_state_def called_def logmsg_def Let_def
          del: One_nat_def)
  qed
qed

lemma sorted_seg:
  assumes "unat e + k \<le> 2 ^ 64"
  shows "sorted_wrt (<) (seg e k)"
proof -
  have "sorted_wrt (\<lambda>m n. (of_nat m :: epoch) < of_nat n) [unat e..<unat e + k]"
  proof (rule sorted_wrt_mono_rel [of _ "(<)"])
    fix m n assume "m \<in> set [unat e..<unat e + k]" "n \<in> set [unat e..<unat e + k]" "m < n"
    then have "m < unat e + k" "n < unat e + k"
      by (simp_all only: set_upt atLeastLessThan_iff)
    with assms have "m < 2 ^ 64" "n < 2 ^ 64" by simp_all
    then have "unat (of_nat m :: epoch) = m" "unat (of_nat n :: epoch) = n"
      by (simp_all add: unat_of_nat_small)
    with \<open>m < n\<close> show "(of_nat m :: epoch) < of_nat n" by (simp add: word_less_nat_alt)
  next
    show "sorted_wrt (<) [unat e..<unat e + k]" by (rule sorted_wrt_upt)
  qed
  then show ?thesis by (simp add: seg_upt [OF assms] sorted_wrt_map)
qed

lemma catchup_body_atomic:
  "(fst (catchup_body env n e md s) \<and>
      committees (chainDB (snd (snd (catchup_body env n e md s)))) = committees (chainDB s) @ [e] \<and>
      md_stored (chainDB (snd (snd (catchup_body env n e md s)))) = \<lparr>LatestEpoch = e\<rparr>)
   \<or> (\<not> fst (catchup_body env n e md s) \<and>
      committees (chainDB (snd (snd (catchup_body env n e md s)))) = committees (chainDB s) \<and>
      md_stored (chainDB (snd (snd (catchup_body env n e md s)))) = md_stored (chainDB s))"
proof (cases "iter_ok env n")
  case True
  then show ?thesis by (simp add: catchup_body_ok commit_epoch_def)
next
  case False
  then have "\<not> fst (catchup_body env n e md s)" by (simp add: catchup_body_not_ok)
  with catchup_body_stop [OF this] show ?thesis by simp
qed

lemma catchup_prefix_unfold:
  "0 < j \<Longrightarrow> catchup_prefix env j n e md s =
     (if e \<le> CurrentEpoch env n then
        (let (c, md', s') = catchup_body env n e md s in
         if c then catchup_prefix env (j - 1) (Suc n) (e + 1) md' s' else (True, md', s'))
      else (True, md, s))"
  by (cases j) (auto simp: Let_def split: prod.splits)

lemmas run_defs = catchup_body_def db_defs iter_ok_def steady_env_def failing_env_def
  service_at_def NewWeighted_def Let_def






lemma subscribe_sem: "activitySem (snd (subscribe env s)) = activitySem s"
  by (simp add: subscribe_def)

lemma uar_acquired_result:
  assumes "\<not> getMetadata_fails env" and "fst (TryAcquire 1 (activitySem s))"
    and "updateAfterRestart env se s = Some (x, s')"
  obtains md' s3 where
    "catchup env (resume_metadata se (md_stored (chainDB s))) (acquired_state s) = Some (md', s3)"
    and "(x, s') = subscribe env (released_state s s3)"
proof -
  from assms(3) uar_acquired [OF assms(1,2), of se]
  obtain r where r: "catchup env (resume_metadata se (md_stored (chainDB s))) (acquired_state s) = Some r"
    by (cases "catchup env (resume_metadata se (md_stored (chainDB s))) (acquired_state s)") auto
  obtain md' s3 where "r = (md', s3)" by (cases r)
  with r assms(3) uar_acquired [OF assms(1,2), of se] that show thesis by auto
qed



lemma uar_sem:
  assumes "updateAfterRestart env se s = Some (x, s')"
  shows "activitySem s' = activitySem s"
proof (cases "getMetadata_fails env")
  case True
  with assms show ?thesis by (auto simp: uar_getMetadata_fails logmsg_def)
next
  case md: False
  show ?thesis
  proof (cases "fst (TryAcquire 1 (activitySem s))")
    case False
    from uar_denied [OF md False, of se] assms show ?thesis by auto
  next
    case True
    from uar_acquired_result [OF md True assms] obtain md' s3 where
      "(x, s') = subscribe env (released_state s s3)" by blast
    then have "s' = snd (subscribe env (released_state s s3))" by (metis snd_conv)
    then show ?thesis by (simp add: subscribe_sem released_state_def)
  qed
qed

lemma catchup_all_ok_cases:
  assumes ok: "\<forall>i. iter_ok env i" and cur: "\<forall>i. CurrentEpoch env i = cur"
  shows "catchup env md s =
    (if cur < LatestEpoch md then Some (md, s)
     else if cur = - 1 then None
     else Some (\<lparr>LatestEpoch = cur\<rparr>, fold commit_epoch (epochs_between (LatestEpoch md) cur) s))"
proof (cases "cur < LatestEpoch md")
  case True
  then have "CurrentEpoch env 0 < LatestEpoch md" by (simp add: cur)
  then have "catchup env md s = Some (md, s)" by (rule catchup_empty)
  with True show ?thesis by simp
next
  case False
  then have le: "LatestEpoch md \<le> cur" by simp
  show ?thesis
  proof (cases "cur = - 1")
    case True
    with ok cur have "catchup env md s = None" by (simp add: catchup_def catchup_loop_diverges)
    with True False show ?thesis by simp
  next
    case nm: False
    from catchup_all_ok [OF ok cur le nm, of s] False nm show ?thesis
      by (simp add: epochs_between_def)
  qed
qed

lemma epochs_between_facts:
  assumes "a \<le> b"
  shows "epochs_between a b \<noteq> []" and "last (epochs_between a b) = b"
    and "Max (set (epochs_between a b)) = b"
proof -
  from assms show ne: "epochs_between a b \<noteq> []"
    by (simp add: epochs_between_def word_le_nat_alt)
  from assms show l: "last (epochs_between a b) = b"
    by (simp add: epochs_between_def word_le_nat_alt)
  from Max_last [OF sorted_epochs_between ne, of ] l show "Max (set (epochs_between a b)) = b"
    by simp
qed

lemma subscribe_db:
  "chainDB (snd (subscribe env s)) = chainDB s"
  by (simp add: subscribe_def)


lemma uar_steady:
  assumes "fst (TryAcquire 1 (activitySem s))" and "cur \<noteq> - 1"
  shows "\<exists>s'. updateAfterRestart (steady_env cur) se s = Some (Returned, s') \<and>
     committees (chainDB s') = committees (chainDB s) @ steady_epochs cur se s \<and>
     md_stored (chainDB s') = md_after (md_stored (chainDB s)) (steady_epochs cur se s) \<and>
     trace s' = trace s @ [EvLog InfoLevel ''Catching up from epoch'', EvTryAcquire True] @
        concat (map tx_trace (steady_epochs cur se s)) @ [EvRelease, EvEvents] \<and>
     activitySem s' = activitySem s \<and> headHandlers s' = Suc (headHandlers s)"
proof -
  let ?env = "steady_env cur"
  let ?md = "resume_metadata se (md_stored (chainDB s))"
  let ?es = "steady_epochs cur se s"
  have md: "\<not> getMetadata_fails ?env" by (simp add: steady_env_def)
  have ok: "\<forall>i. iter_ok ?env i" and cur: "\<forall>i. CurrentEpoch ?env i = cur"
    by (simp_all add: iter_ok_def steady_env_def)
  have ev: "isEventsProvider ?env" "\<not> Events_fails ?env" by (simp_all add: steady_env_def)
  have "catchup ?env ?md (acquired_state s) =
      Some (md_after ?md ?es, fold commit_epoch ?es (acquired_state s))"
    using catchup_all_ok_cases [OF ok cur, of ?md "acquired_state s"] assms(2)
      epochs_between_facts(1,2) [of "LatestEpoch ?md" cur]
    by (auto simp: steady_epochs_def md_after_def)
  with uar_acquired [OF md assms(1), of se]
  have "updateAfterRestart ?env se s =
      Some (subscribe ?env (released_state s (fold commit_epoch ?es (acquired_state s))))"
    by simp
  then show ?thesis
    using ev
    by (simp add: subscribe_def released_state_def fold_commit_committees fold_commit_md
        fold_commit_trace fold_commit_handlers acquired_state_def)
qed

lemma service_at_simps:
  "committees (chainDB (service_at l)) = []"
  "md_stored (chainDB (service_at l)) = \<lparr>LatestEpoch = l\<rparr>"
  "open_tx (chainDB (service_at l)) = None"
  "trace (service_at l) = []"
  "activitySem (service_at l) = NewWeighted 1"
  "headHandlers (service_at l) = 0"
  by (simp_all add: service_at_def)

lemma acquires_service_at: "fst (TryAcquire 1 (activitySem (service_at l)))"
  by (simp add: TryAcquire_def service_at_def NewWeighted_def)

lemma subscribe_Returned:
  assumes "subscribe env s = (Returned, s')"
  shows "isEventsProvider env" and "\<not> Events_fails env"
  using assms by (auto simp: subscribe_def split: if_splits)

lemma uar_empty:
  assumes md: "\<not> getMetadata_fails env" and acq: "fst (TryAcquire 1 (activitySem s))"
    and ev: "isEventsProvider env" "\<not> Events_fails env"
    and e: "CurrentEpoch env 0 < LatestEpoch (resume_metadata se (md_stored (chainDB s)))"
  shows "updateAfterRestart env se s =
    Some (Returned, s\<lparr>headHandlers := Suc (headHandlers s),
      trace := trace s @ [EvLog InfoLevel ''Catching up from epoch'', EvTryAcquire True,
                          EvRelease, EvEvents]\<rparr>)"
proof -
  from e have "catchup env (resume_metadata se (md_stored (chainDB s))) (acquired_state s) =
      Some (resume_metadata se (md_stored (chainDB s)), acquired_state s)"
    by (rule catchup_empty)
  with uar_acquired [OF md acq, of se] ev show ?thesis
    by (simp add: subscribe_def released_state_def acquired_state_def)
qed

section \<open>Properties\<close>

text \<open>C1: a pass of the loop makes the committees of its epoch and the Progress Metadata
  with that epoch durable together, in the one commit of its transaction, or neither of
  them. So after any number \<open>j\<close> of passes the epochs \<open>es\<close> committed so far and the stored
  metadata agree: with nothing committed the metadata is as before the run, otherwise it is
  the epoch committed last, which is the highest one committed as long as the counter has
  not wrapped around (the current epoch is never the last \<^verbatim>\<open>uint64\<close>). The state in
  which \<^verbatim>\<open>catchup\<close> returns is one of these states.\<close>

theorem metadata_matches_committed:
  "((fst (catchup_body env n e md s) \<and>
      committees (chainDB (snd (snd (catchup_body env n e md s)))) = committees (chainDB s) @ [e] \<and>
      md_stored (chainDB (snd (snd (catchup_body env n e md s)))) = \<lparr>LatestEpoch = e\<rparr>)
    \<or> (\<not> fst (catchup_body env n e md s) \<and>
      committees (chainDB (snd (snd (catchup_body env n e md s)))) = committees (chainDB s) \<and>
      md_stored (chainDB (snd (snd (catchup_body env n e md s)))) = md_stored (chainDB s)))
   \<and> (\<exists>es. committees (chainDB (snd (snd (catchup_prefix env j 0 (LatestEpoch md) md s)))) =
            committees (chainDB s) @ es \<and>
          (es = [] \<longrightarrow>
             md_stored (chainDB (snd (snd (catchup_prefix env j 0 (LatestEpoch md) md s)))) =
             md_stored (chainDB s)) \<and>
          (es \<noteq> [] \<longrightarrow>
             LatestEpoch (md_stored (chainDB (snd (snd (catchup_prefix env j 0 (LatestEpoch md) md s)))))
               = last es \<and>
             ((\<forall>i. CurrentEpoch env i \<noteq> - 1) \<longrightarrow> sorted_wrt (<) es \<and> last es = Max (set es))))
   \<and> (\<forall>md' s'. catchup env md s = Some (md', s') \<longrightarrow>
         (\<exists>j. catchup_prefix env j 0 (LatestEpoch md) md s = (True, md', s')))"
proof (intro conjI)
  show "(fst (catchup_body env n e md s) \<and>
      committees (chainDB (snd (snd (catchup_body env n e md s)))) = committees (chainDB s) @ [e] \<and>
      md_stored (chainDB (snd (snd (catchup_body env n e md s)))) = \<lparr>LatestEpoch = e\<rparr>)
    \<or> (\<not> fst (catchup_body env n e md s) \<and>
      committees (chainDB (snd (snd (catchup_body env n e md s)))) = committees (chainDB s) \<and>
      md_stored (chainDB (snd (snd (catchup_body env n e md s)))) = md_stored (chainDB s))"
    by (rule catchup_body_atomic)
next
  let ?r = "LatestEpoch md"
  let ?s' = "snd (snd (catchup_prefix env j 0 ?r md s))"
  from prefix_effect [of ?r env 0 j md s] obtain k where
    c: "\<forall>i<k. ?r + of_nat i \<le> CurrentEpoch env (0 + i)"
    and cm: "committees (chainDB ?s') = committees (chainDB s) @ seg ?r k"
    and m: "md_stored (chainDB ?s') = md_after (md_stored (chainDB s)) (seg ?r k)"
    by blast
  have w: "sorted_wrt (<) (seg ?r k) \<and> last (seg ?r k) = Max (set (seg ?r k))"
    if nw: "\<forall>i. CurrentEpoch env i \<noteq> - 1" and ne: "seg ?r k \<noteq> []"
  proof -
    from nw have "\<forall>i<k. CurrentEpoch env (0 + i) \<noteq> - 1" by simp
    with c have "unat ?r + k \<le> 2 ^ 64 - 1" by (rule no_wrap)
    then have "unat ?r + k \<le> 2 ^ 64" by simp
    then have "sorted_wrt (<) (seg ?r k)" by (rule sorted_seg)
    with ne show ?thesis by (simp add: Max_last)
  qed
  have "committees (chainDB ?s') = committees (chainDB s) @ seg ?r k \<and>
      (seg ?r k = [] \<longrightarrow> md_stored (chainDB ?s') = md_stored (chainDB s)) \<and>
      (seg ?r k \<noteq> [] \<longrightarrow> LatestEpoch (md_stored (chainDB ?s')) = last (seg ?r k) \<and>
         ((\<forall>i. CurrentEpoch env i \<noteq> - 1) \<longrightarrow>
            sorted_wrt (<) (seg ?r k) \<and> last (seg ?r k) = Max (set (seg ?r k))))"
    using cm m w by (simp add: md_after_def)
  then show "\<exists>es. committees (chainDB ?s') = committees (chainDB s) @ es \<and>
          (es = [] \<longrightarrow> md_stored (chainDB ?s') = md_stored (chainDB s)) \<and>
          (es \<noteq> [] \<longrightarrow> LatestEpoch (md_stored (chainDB ?s')) = last es \<and>
             ((\<forall>i. CurrentEpoch env i \<noteq> - 1) \<longrightarrow> sorted_wrt (<) es \<and> last es = Max (set es)))"
    by (rule exI)
next
  show "\<forall>md' s'. catchup env md s = Some (md', s') \<longrightarrow>
         (\<exists>j. catchup_prefix env j 0 (LatestEpoch md) md s = (True, md', s'))"
    unfolding catchup_def using loop_to_prefix by blast
qed

text \<open>C1 for a run from epoch 3 with current epoch 10 whose fourth commit fails: after five
  passes the epochs 3, 4 and 5 are committed and the stored metadata is 5, their maximum.\<close>

theorem metadata_matches_committed_witness:
  "(\<forall>i. CurrentEpoch (failing_env 10 3 StCommitTx) i \<noteq> - 1) \<and>
   committees (chainDB (snd (snd (catchup_prefix (failing_env 10 3 StCommitTx) 5 0 3
     \<lparr>LatestEpoch = 3\<rparr> (service_at 2))))) = [3, 4, 5] \<and>
   LatestEpoch (md_stored (chainDB (snd (snd (catchup_prefix (failing_env 10 3 StCommitTx) 5 0 3
     \<lparr>LatestEpoch = 3\<rparr> (service_at 2)))))) = 5 \<and>
   Max (set [3, 4, 5 :: epoch]) = 5"
proof -
  let ?env = "failing_env 10 3 StCommitTx"
  let ?s' = "snd (snd (catchup_prefix ?env 5 0 3 \<lparr>LatestEpoch = 3\<rparr> (service_at 2)))"
  have nw: "\<forall>i. CurrentEpoch ?env i \<noteq> - 1" by (simp add: failing_env_def steady_env_def)
  have c: "committees (chainDB ?s') = [3, 4, 5]"
    by (simp add: catchup_prefix_unfold run_defs)
  from metadata_matches_committed [of ?env 0 3 "\<lparr>LatestEpoch = 3\<rparr>" "service_at 2" 5]
  obtain es where es: "committees (chainDB ?s') = committees (chainDB (service_at 2)) @ es"
    "es \<noteq> [] \<longrightarrow> LatestEpoch (md_stored (chainDB ?s')) = last es \<and>
       ((\<forall>i. CurrentEpoch ?env i \<noteq> - 1) \<longrightarrow> sorted_wrt (<) es \<and> last es = Max (set es))"
    by auto
  from es(1) c have "es = [3, 4, 5]" by (simp add: service_at_def)
  with es(2) nw c show ?thesis by simp
qed

text \<open>C2: the epoch the catch-up starts from. A start epoch that is not negative replaces
  the stored value, with the same numeric value; otherwise a stored epoch above 0 is
  incremented (in \<^verbatim>\<open>uint64\<close> arithmetic: by one unless it is the last \<^verbatim>\<open>uint64\<close>), and a
  stored epoch 0 is kept. Stored 5 without override gives 6, stored 0 gives 0, and the
  override 10 gives 10 whatever is stored. This is the metadata \<^verbatim>\<open>updateAfterRestart\<close>
  hands to \<^verbatim>\<open>catchup\<close>.\<close>

theorem resume_point:
  "LatestEpoch (resume_metadata startEpoch md) =
     (if 0 \<le> sint startEpoch then startEpoch
      else if 0 < LatestEpoch md then LatestEpoch md + 1
      else LatestEpoch md)
   \<and> (0 \<le> sint startEpoch \<longrightarrow> uint (LatestEpoch (resume_metadata startEpoch md)) = sint startEpoch)
   \<and> (sint startEpoch < 0 \<longrightarrow> 0 < LatestEpoch md \<longrightarrow> LatestEpoch md \<noteq> - 1 \<longrightarrow>
        unat (LatestEpoch (resume_metadata startEpoch md)) = unat (LatestEpoch md) + 1)
   \<and> resume_metadata (- 1) \<lparr>LatestEpoch = 5\<rparr> = \<lparr>LatestEpoch = 6\<rparr>
   \<and> resume_metadata (- 1) \<lparr>LatestEpoch = 0\<rparr> = \<lparr>LatestEpoch = 0\<rparr>
   \<and> resume_metadata 10 md = \<lparr>LatestEpoch = 10\<rparr>
   \<and> (\<not> getMetadata_fails env \<longrightarrow> fst (TryAcquire 1 (activitySem s)) \<longrightarrow>
        updateAfterRestart env startEpoch s =
          (case catchup env (resume_metadata startEpoch (md_stored (chainDB s))) (acquired_state s) of
             None \<Rightarrow> None
           | Some (md', s3) \<Rightarrow> Some (subscribe env (released_state s s3))))"
proof (intro conjI impI)
  show "LatestEpoch (resume_metadata startEpoch md) =
     (if 0 \<le> sint startEpoch then startEpoch
      else if 0 < LatestEpoch md then LatestEpoch md + 1
      else LatestEpoch md)"
    by (simp add: resume_metadata_def word_sle_eq)
  show "uint (LatestEpoch (resume_metadata startEpoch md)) = sint startEpoch"
    if "0 \<le> sint startEpoch"
    using that by (simp add: resume_metadata_def word_sle_eq uint_eq_sint)
  show "unat (LatestEpoch (resume_metadata startEpoch md)) = unat (LatestEpoch md) + 1"
    if "sint startEpoch < 0" "0 < LatestEpoch md" "LatestEpoch md \<noteq> - 1"
    using that by (simp add: resume_metadata_def word_sle_eq unat_succ)
  show "resume_metadata (- 1) \<lparr>LatestEpoch = 5\<rparr> = \<lparr>LatestEpoch = 6\<rparr>"
    by (simp add: resume_metadata_def word_sle_eq)
  show "resume_metadata (- 1) \<lparr>LatestEpoch = 0\<rparr> = \<lparr>LatestEpoch = 0\<rparr>"
    by (simp add: resume_metadata_def word_sle_eq)
  show "resume_metadata 10 md = \<lparr>LatestEpoch = 10\<rparr>"
    by (simp add: resume_metadata_def word_sle_eq)
  show "updateAfterRestart env startEpoch s =
          (case catchup env (resume_metadata startEpoch (md_stored (chainDB s))) (acquired_state s) of
             None \<Rightarrow> None
           | Some (md', s3) \<Rightarrow> Some (subscribe env (released_state s s3)))"
    if "\<not> getMetadata_fails env" "fst (TryAcquire 1 (activitySem s))"
    using that by (rule uar_acquired)
qed

text \<open>C2 with the stored epoch 7: no override resumes at 8, the override 3 at 3.\<close>

theorem resume_point_witness:
  "LatestEpoch (resume_metadata (- 1) \<lparr>LatestEpoch = 7\<rparr>) = 8 \<and>
   unat (LatestEpoch (resume_metadata (- 1) \<lparr>LatestEpoch = 7\<rparr>)) = unat (7 :: epoch) + 1 \<and>
   LatestEpoch (resume_metadata 3 \<lparr>LatestEpoch = 7\<rparr>) = 3 \<and>
   uint (LatestEpoch (resume_metadata 3 \<lparr>LatestEpoch = 7\<rparr>)) = sint (3 :: int64)"
  using resume_point [of "- 1" "\<lparr>LatestEpoch = 7\<rparr>"] resume_point [of 3 "\<lparr>LatestEpoch = 7\<rparr>"]
  by simp

text \<open>C3: in a run from epoch \<open>LatestEpoch md\<close> with the current epoch at least \<open>K\<close>, let
  every pass before the one for epoch \<open>K\<close> succeed and let that pass open its transaction
  and then fail in the update of the committees, in the write of the metadata or in the
  commit. Then \<^verbatim>\<open>catchup\<close> returns (it has no error to hand to its caller); the epochs
  committed are exactly those from the resume epoch up to \<open>K - 1\<close>; the stored Progress
  Metadata is \<open>K - 1\<close>, or as before the run when \<open>K\<close> is the resume epoch; the transaction
  of epoch \<open>K\<close> is cancelled and no transaction is left open; and no epoch beyond \<open>K\<close> is
  attempted: the calls of the failed pass are the last ones. The caller,
  \<^verbatim>\<open>updateAfterRestart\<close>, goes on as after any catch-up: it releases the permit and
  subscribes, and its outcome is that of the subscription.\<close>

theorem catchup_abort_isolation:
  assumes "LatestEpoch md \<le> K"
    and "\<forall>i. K \<le> CurrentEpoch env i"
    and "\<forall>i < unat K - unat (LatestEpoch md). iter_ok env i"
    and "\<not> step_fails env (unat K - unat (LatestEpoch md)) StBeginTx"
    and "step_fails env (unat K - unat (LatestEpoch md)) StUpdate \<or>
         step_fails env (unat K - unat (LatestEpoch md)) StSetMetadata \<or>
         step_fails env (unat K - unat (LatestEpoch md)) StCommitTx"
  shows "\<exists>md' s'. catchup env md s = Some (md', s') \<and>
      committees (chainDB s') = committees (chainDB s) @ epochs_range (LatestEpoch md) K \<and>
      set (epochs_range (LatestEpoch md) K) = {e. LatestEpoch md \<le> e \<and> e < K} \<and>
      md_stored (chainDB s') =
        (if K = LatestEpoch md then md_stored (chainDB s) else \<lparr>LatestEpoch = K - 1\<rparr>) \<and>
      open_tx (chainDB s') = None \<and>
      trace s' = trace s @ concat (map tx_trace (epochs_range (LatestEpoch md) K)) @
                   fail_trace env (unat K - unat (LatestEpoch md)) K \<and>
      last (trace s') = EvCancel \<and>
      (\<forall>e. EvUpdate e \<in> set (drop (length (trace s)) (trace s')) \<longrightarrow> e \<le> K) \<and>
      (\<forall>se s0. \<not> getMetadata_fails env \<longrightarrow> fst (TryAcquire 1 (activitySem s0)) \<longrightarrow>
         md = resume_metadata se (md_stored (chainDB s0)) \<longrightarrow> s = acquired_state s0 \<longrightarrow>
         updateAfterRestart env se s0 = Some (subscribe env (released_state s0 s')))"
proof -
  let ?n = "unat K - unat (LatestEpoch md)"
  from assms(5) have bad: "\<not> iter_ok env ?n" by (auto simp: iter_ok_def)
  from catchup_fails [OF assms(1,2,3) bad, of s] assms(4) obtain md' s' where
    r: "catchup env md s = Some (md', s')"
    and c: "committees (chainDB s') = committees (chainDB s) @ epochs_range (LatestEpoch md) K"
    and m: "md_stored (chainDB s') =
        (if K = LatestEpoch md then md_stored (chainDB s) else \<lparr>LatestEpoch = K - 1\<rparr>)"
    and t: "trace s' = trace s @ concat (map tx_trace (epochs_range (LatestEpoch md) K)) @
              fail_trace env ?n K"
    and o: "open_tx (chainDB s') = None"
    by blast
  have l: "last (fail_trace env ?n K) = EvCancel" and ne: "fail_trace env ?n K \<noteq> []"
    using assms(4) by (simp_all add: fail_trace_def)
  have last: "last (trace s') = EvCancel" using l ne by (simp add: t)
  have upd: "\<forall>e. EvUpdate e \<in> set (drop (length (trace s)) (trace s')) \<longrightarrow> e \<le> K"
  proof (intro allI impI)
    fix e assume "EvUpdate e \<in> set (drop (length (trace s)) (trace s'))"
    then have "EvUpdate e \<in> set (concat (map tx_trace (epochs_range (LatestEpoch md) K))) \<or>
        EvUpdate e \<in> set (fail_trace env ?n K)"
      by (simp add: t)
    then show "e \<le> K"
    proof
      assume "EvUpdate e \<in> set (concat (map tx_trace (epochs_range (LatestEpoch md) K)))"
      then have "e \<in> set (epochs_range (LatestEpoch md) K)" by (simp only: Update_in_tx_traces)
      then show ?thesis by (auto simp: set_epochs_range)
    next
      assume "EvUpdate e \<in> set (fail_trace env ?n K)"
      then have "e = K" by (rule Update_in_fail_trace)
      then show ?thesis by simp
    qed
  qed
  have caller: "\<forall>se s0. \<not> getMetadata_fails env \<longrightarrow> fst (TryAcquire 1 (activitySem s0)) \<longrightarrow>
         md = resume_metadata se (md_stored (chainDB s0)) \<longrightarrow> s = acquired_state s0 \<longrightarrow>
         updateAfterRestart env se s0 = Some (subscribe env (released_state s0 s'))"
  proof (intro allI impI)
    fix se s0
    assume a: "\<not> getMetadata_fails env" "fst (TryAcquire 1 (activitySem s0))"
      and e: "md = resume_metadata se (md_stored (chainDB s0))" "s = acquired_state s0"
    from r e uar_acquired [OF a, of se]
    show "updateAfterRestart env se s0 = Some (subscribe env (released_state s0 s'))" by simp
  qed
  from r c m t o last upd caller set_epochs_range [of "LatestEpoch md" K] show ?thesis by blast
qed

text \<open>C3 for the run of the spec: resume epoch 3, current epoch 10, the update of the
  committees of epoch 6 fails. The epochs 3 to 5 are committed, the stored metadata is 5.\<close>

theorem catchup_abort_isolation_witness:
  "LatestEpoch \<lparr>LatestEpoch = 3\<rparr> \<le> (6 :: epoch) \<and>
   (\<forall>i. 6 \<le> CurrentEpoch (failing_env 10 3 StUpdate) i) \<and>
   iter_ok (failing_env 10 3 StUpdate) 0 \<and> iter_ok (failing_env 10 3 StUpdate) 1 \<and>
   iter_ok (failing_env 10 3 StUpdate) 2 \<and>
   \<not> step_fails (failing_env 10 3 StUpdate) (unat (6 :: epoch) - unat (3 :: epoch)) StBeginTx \<and>
   step_fails (failing_env 10 3 StUpdate) (unat (6 :: epoch) - unat (3 :: epoch)) StUpdate \<and>
   (\<exists>md' s'. catchup (failing_env 10 3 StUpdate) \<lparr>LatestEpoch = 3\<rparr> (service_at 2) = Some (md', s') \<and>
      committees (chainDB s') = [3, 4, 5] \<and>
      md_stored (chainDB s') = \<lparr>LatestEpoch = 5\<rparr> \<and>
      open_tx (chainDB s') = None \<and>
      trace s' = [EvBeginTx, EvUpdate 3, EvSetMetadata 3, EvCommitTx,
                  EvBeginTx, EvUpdate 4, EvSetMetadata 4, EvCommitTx,
                  EvBeginTx, EvUpdate 5, EvSetMetadata 5, EvCommitTx,
                  EvBeginTx, EvUpdate 6,
                  EvLog WarnLevel ''Failed to update beacon committees'', EvCancel])"
proof -
  let ?env = "failing_env 10 3 StUpdate"
  have h1: "LatestEpoch \<lparr>LatestEpoch = 3\<rparr> \<le> (6 :: epoch)" by simp
  have h2: "\<forall>i. 6 \<le> CurrentEpoch ?env i" by (simp add: failing_env_def steady_env_def)
  have h3: "\<forall>i < unat (6 :: epoch) - unat (LatestEpoch \<lparr>LatestEpoch = 3\<rparr>). iter_ok ?env i"
    by (simp add: failing_env_def steady_env_def iter_ok_def)
  have h4: "\<not> step_fails ?env (unat (6 :: epoch) - unat (LatestEpoch \<lparr>LatestEpoch = 3\<rparr>)) StBeginTx"
    by (simp add: failing_env_def steady_env_def)
  have h5: "step_fails ?env (unat (6 :: epoch) - unat (LatestEpoch \<lparr>LatestEpoch = 3\<rparr>)) StUpdate"
    by (simp add: failing_env_def steady_env_def)
  have es: "epochs_range 3 6 = [3, 4, 5]" by (simp add: epochs_range_def)
  have ft: "fail_trace ?env 3 6 =
      [EvBeginTx, EvUpdate 6, EvLog WarnLevel ''Failed to update beacon committees'', EvCancel]"
    by (simp add: fail_trace_def failing_env_def steady_env_def)
  from catchup_abort_isolation [OF h1 h2 h3 h4, of "service_at 2"] h5
  obtain md' s' where
    "catchup ?env \<lparr>LatestEpoch = 3\<rparr> (service_at 2) = Some (md', s')"
    "committees (chainDB s') = committees (chainDB (service_at 2)) @ epochs_range 3 6"
    "md_stored (chainDB s') = \<lparr>LatestEpoch = 5\<rparr>"
    "open_tx (chainDB s') = None"
    "trace s' = trace (service_at 2) @ concat (map tx_trace (epochs_range 3 6)) @ fail_trace ?env 3 6"
    by auto
  then have "catchup ?env \<lparr>LatestEpoch = 3\<rparr> (service_at 2) = Some (md', s') \<and>
      committees (chainDB s') = [3, 4, 5] \<and>
      md_stored (chainDB s') = \<lparr>LatestEpoch = 5\<rparr> \<and>
      open_tx (chainDB s') = None \<and>
      trace s' = [EvBeginTx, EvUpdate 3, EvSetMetadata 3, EvCommitTx,
                  EvBeginTx, EvUpdate 4, EvSetMetadata 4, EvCommitTx,
                  EvBeginTx, EvUpdate 5, EvSetMetadata 5, EvCommitTx,
                  EvBeginTx, EvUpdate 6,
                  EvLog WarnLevel ''Failed to update beacon committees'', EvCancel]"
    by (simp add: es ft tx_trace_def service_at_def)
  moreover have "iter_ok ?env 0 \<and> iter_ok ?env 1 \<and> iter_ok ?env 2"
    by (simp add: failing_env_def steady_env_def iter_ok_def)
  ultimately show ?thesis using h1 h2 h4 h5 by auto
qed

text \<open>C4: in a run in which no call fails, with the current epoch \<open>cur\<close> and the resume epoch at most \<open>cur\<close>, the epochs committed are exactly those from the resume epoch to \<open>cur\<close>, in strictly ascending order, and the calls made are, epoch after epoch, one transaction that is opened, written with that epoch alone and committed. (A run with \<open>cur\<close> the last \<^verbatim>\<open>uint64\<close> never ends.)\<close>

theorem catchup_processes_range:
  assumes "\<forall>i. iter_ok env i" and "\<forall>i. CurrentEpoch env i = cur" and "LatestEpoch md \<le> cur"
  shows "if cur = - 1 then catchup env md s = None
         else (\<exists>md' s'. catchup env md s = Some (md', s') \<and>
                committees (chainDB s') =
                  committees (chainDB s) @ epochs_between (LatestEpoch md) cur \<and>
                trace s' =
                  trace s @ concat (map tx_trace (epochs_between (LatestEpoch md) cur)) \<and>
                md_stored (chainDB s') = \<lparr>LatestEpoch = cur\<rparr> \<and>
                open_tx (chainDB s') = None \<and>
                activitySem s' = activitySem s \<and> headHandlers s' = headHandlers s) \<and>
              sorted_wrt (<) (epochs_between (LatestEpoch md) cur) \<and>
              set (epochs_between (LatestEpoch md) cur) = {e. LatestEpoch md \<le> e \<and> e \<le> cur}"
proof (cases "cur = - 1")
  case True
  with assms(1,2) show ?thesis by (simp add: catchup_def catchup_loop_diverges)
next
  case False
  let ?es = "epochs_between (LatestEpoch md) cur"
  have ne: "?es \<noteq> []"
    using assms(3) by (simp add: epochs_between_def word_le_nat_alt)
  have last: "last ?es = cur"
    using assms(3) by (simp add: epochs_between_def word_le_nat_alt)
  have "catchup env md s = Some (\<lparr>LatestEpoch = cur\<rparr>, fold commit_epoch ?es s)"
    unfolding epochs_between_def by (rule catchup_all_ok [OF assms False])
  then show ?thesis
    using False ne last
    by (simp add: fold_commit_committees fold_commit_trace fold_commit_md fold_commit_open_tx
        fold_commit_sem fold_commit_handlers
        md_after_def sorted_epochs_between set_epochs_between)
qed

text \<open>C4 at resume epoch 3 and current epoch 5.\<close>

theorem catchup_processes_range_witness:
  "(\<forall>i. iter_ok (steady_env 5) i) \<and> (\<forall>i. CurrentEpoch (steady_env 5) i = 5) \<and>
   LatestEpoch \<lparr>LatestEpoch = 3\<rparr> \<le> 5 \<and>
   (\<exists>md' s'. catchup (steady_env 5) \<lparr>LatestEpoch = 3\<rparr> (service_at 2) = Some (md', s') \<and>
      committees (chainDB s') = [3, 4, 5] \<and>
      trace s' = [EvBeginTx, EvUpdate 3, EvSetMetadata 3, EvCommitTx,
                  EvBeginTx, EvUpdate 4, EvSetMetadata 4, EvCommitTx,
                  EvBeginTx, EvUpdate 5, EvSetMetadata 5, EvCommitTx] \<and>
      md_stored (chainDB s') = \<lparr>LatestEpoch = 5\<rparr> \<and> open_tx (chainDB s') = None)"
proof -
  have h1: "\<forall>i. iter_ok (steady_env 5) i" by (simp add: iter_ok_def steady_env_def)
  have h2: "\<forall>i. CurrentEpoch (steady_env 5) i = 5" by (simp add: steady_env_def)
  have h3: "LatestEpoch \<lparr>LatestEpoch = 3\<rparr> \<le> (5 :: epoch)" by simp
  have es: "epochs_between 3 5 = [3, 4, 5]" by (simp add: epochs_between_def)
  from catchup_processes_range [OF h1 h2 h3, of "service_at 2"] h1 h2 h3 show ?thesis
    by (simp add: es tx_trace_def service_at_def, blast)
qed






text \<open>C7: when the epoch to resume from is beyond the current epoch, the loop makes no pass: \<^verbatim>\<open>catchup\<close> returns, and the whole state, with the stored Progress Metadata and the record of calls, is as before (no transaction was opened).\<close>

theorem catchup_noop_range:
  "CurrentEpoch env 0 < LatestEpoch md \<Longrightarrow> catchup env md s = Some (md, s)"
  by (rule catchup_empty)

text \<open>C7 at resume epoch 8 and current epoch 7.\<close>

theorem catchup_noop_range_witness:
  "CurrentEpoch (steady_env 7) 0 < LatestEpoch \<lparr>LatestEpoch = 8\<rparr> \<and>
   catchup (steady_env 7) \<lparr>LatestEpoch = 8\<rparr> (service_at 7) = Some (\<lparr>LatestEpoch = 8\<rparr>, service_at 7)"
  using catchup_noop_range [of "steady_env 7" "\<lparr>LatestEpoch = 8\<rparr>" "service_at 7"]
  by (simp add: steady_env_def)



text \<open>C9, as amended: let a first pass of the startup routine be admitted by the guard,
  have an epoch to process, meet no failing call at the constant current epoch \<open>cur\<close>, and
  return. If \<open>cur\<close> is above 0, the stored Progress Metadata is then \<open>cur\<close>, and a second
  pass without override at the same current epoch resumes at \<open>cur + 1\<close>, beyond \<open>cur\<close>: it
  opens no transaction and writes nothing, the database is as the first pass left it, and
  its only calls are the log line, the semaphore and the subscription.\<close>

theorem second_pass_is_empty:
  assumes "\<forall>i. iter_ok env i" and "\<forall>i. CurrentEpoch env i = cur" and "0 < cur"
    and "fst (TryAcquire 1 (activitySem s))"
    and "LatestEpoch (resume_metadata startEpoch (md_stored (chainDB s))) \<le> cur"
    and "updateAfterRestart env startEpoch s = Some (Returned, s1)"
    and "\<not> 0 \<le>s startEpoch'"
  shows "LatestEpoch (md_stored (chainDB s1)) = cur \<and>
     LatestEpoch (resume_metadata startEpoch' (md_stored (chainDB s1))) = cur + 1 \<and>
     cur < cur + 1 \<and>
     updateAfterRestart env startEpoch' s1 =
       Some (Returned, s1\<lparr>headHandlers := Suc (headHandlers s1),
         trace := trace s1 @ [EvLog InfoLevel ''Catching up from epoch'', EvTryAcquire True,
                              EvRelease, EvEvents]\<rparr>)"
proof -
  let ?md = "resume_metadata startEpoch (md_stored (chainDB s))"
  have md: "\<not> getMetadata_fails env"
    using assms(6) by (auto simp: uar_getMetadata_fails)
  from uar_acquired_result [OF md assms(4,6)] obtain md' s3 where
    c: "catchup env ?md (acquired_state s) = Some (md', s3)"
    and x: "(Returned, s1) = subscribe env (released_state s s3)"
    by blast
  from x have ev: "isEventsProvider env" "\<not> Events_fails env"
    using subscribe_Returned [of env "released_state s s3" s1] by simp_all
  from x have "s1 = snd (subscribe env (released_state s s3))" by (metis snd_conv)
  then have db: "chainDB s1 = chainDB s3" by (simp add: subscribe_db released_state_def)
  from assms(5) have nl: "\<not> cur < LatestEpoch ?md" by simp
  with c catchup_all_ok_cases [OF assms(1,2), of ?md "acquired_state s"]
  have nm: "cur \<noteq> - 1"
    and s3: "s3 = fold commit_epoch (epochs_between (LatestEpoch ?md) cur) (acquired_state s)"
    by (simp_all split: if_splits)
  from s3 db epochs_between_facts(1,2) [OF assms(5)]
  have m: "LatestEpoch (md_stored (chainDB s1)) = cur"
    by (simp add: fold_commit_md md_after_def)
  from assms(3,7) m have r: "LatestEpoch (resume_metadata startEpoch' (md_stored (chainDB s1))) = cur + 1"
    by (simp add: resume_metadata_def)
  from nm have "unat (cur + 1) = Suc (unat cur)" by (rule unat_succ)
  then have lt: "cur < cur + 1" by (simp add: word_less_nat_alt)
  from assms(6) have "activitySem s1 = activitySem s" by (rule uar_sem)
  with assms(4) have acq: "fst (TryAcquire 1 (activitySem s1))" by simp
  from lt r have e: "CurrentEpoch env 0 < LatestEpoch (resume_metadata startEpoch' (md_stored (chainDB s1)))"
    by (simp add: assms(2))
  from m r lt uar_empty [OF md acq ev e] show ?thesis by simp
qed

text \<open>C9 for a service with the stored epoch 2 at the current epoch 4: the first pass
  commits 3 and 4, the second pass commits nothing.\<close>

theorem second_pass_is_empty_witness:
  "(\<forall>i. iter_ok (steady_env 4) i) \<and> (\<forall>i. CurrentEpoch (steady_env 4) i = 4) \<and> (0 :: epoch) < 4 \<and>
   fst (TryAcquire 1 (activitySem (service_at 2))) \<and>
   LatestEpoch (resume_metadata (- 1) (md_stored (chainDB (service_at 2)))) \<le> 4 \<and>
   \<not> 0 \<le>s (- 1 :: int64) \<and>
   (\<exists>s1. updateAfterRestart (steady_env 4) (- 1) (service_at 2) = Some (Returned, s1) \<and>
      committees (chainDB s1) = [3, 4] \<and>
      LatestEpoch (md_stored (chainDB s1)) = 4 \<and>
      updateAfterRestart (steady_env 4) (- 1) s1 =
        Some (Returned, s1\<lparr>headHandlers := Suc (headHandlers s1),
          trace := trace s1 @ [EvLog InfoLevel ''Catching up from epoch'', EvTryAcquire True,
                               EvRelease, EvEvents]\<rparr>))"
proof -
  let ?env = "steady_env 4"
  let ?s = "service_at 2"
  have ok: "\<forall>i. iter_ok ?env i" and cur: "\<forall>i. CurrentEpoch ?env i = 4"
    by (simp_all add: iter_ok_def steady_env_def)
  have pos: "(0 :: epoch) < 4" by simp
  have no: "\<not> 0 \<le>s (- 1 :: int64)" by (simp add: word_sle_eq)
  have r: "LatestEpoch (resume_metadata (- 1) (md_stored (chainDB ?s))) = 3"
    by (simp add: resume_metadata_def service_at_simps word_sle_eq)
  then have le: "LatestEpoch (resume_metadata (- 1) (md_stored (chainDB ?s))) \<le> 4" by simp
  have se: "steady_epochs 4 (- 1) ?s = [3, 4]"
    by (simp add: steady_epochs_def r epochs_between_def)
  from uar_steady [where s = ?s and cur = 4 and se = "- 1", OF acquires_service_at]
  obtain s1 where u: "updateAfterRestart ?env (- 1) ?s = Some (Returned, s1)"
    and c: "committees (chainDB s1) = [3, 4]"
    by (auto simp: se service_at_simps)
  from second_pass_is_empty [OF ok cur pos acquires_service_at le u no]
  have "LatestEpoch (md_stored (chainDB s1)) = 4"
    and "updateAfterRestart ?env (- 1) s1 =
        Some (Returned, s1\<lparr>headHandlers := Suc (headHandlers s1),
          trace := trace s1 @ [EvLog InfoLevel ''Catching up from epoch'', EvTryAcquire True,
                               EvRelease, EvEvents]\<rparr>)"
    by simp_all
  with ok cur pos acquires_service_at le no u c show ?thesis by blast
qed

text \<open>C9 as stated fails at the current epoch 0: the first pass of a new service commits
  epoch 0 and stores the metadata 0, which the second pass reads as nothing processed yet;
  it resumes at 0 and commits epoch 0 a second time.\<close>

theorem second_pass_is_empty_counterexample:
  "map_option (committees \<circ> chainDB \<circ> snd)
     (updateAfterRestart (steady_env 0) (- 1) (service_at 0)) = Some [0] \<and>
   map_option (committees \<circ> chainDB \<circ> snd)
     (Option.bind (updateAfterRestart (steady_env 0) (- 1) (service_at 0))
        (updateAfterRestart (steady_env 0) (- 1) \<circ> snd)) = Some [0, 0]"
proof -
  let ?env = "steady_env 0"
  have es: "epochs_between 0 0 = [0]" by (simp add: epochs_between_def)
  have r: "resume_metadata (- 1) \<lparr>LatestEpoch = 0\<rparr> = \<lparr>LatestEpoch = 0\<rparr>"
    by (simp add: resume_metadata_def word_sle_eq)
  have se0: "steady_epochs 0 (- 1) (service_at 0) = [0]"
    by (simp add: steady_epochs_def service_at_simps r es)
  from uar_steady [where s = "service_at 0" and cur = 0 and se = "- 1", OF acquires_service_at]
  obtain s1 where u1: "updateAfterRestart ?env (- 1) (service_at 0) = Some (Returned, s1)"
    and c1: "committees (chainDB s1) = [0]"
    and m1: "md_stored (chainDB s1) = \<lparr>LatestEpoch = 0\<rparr>"
    and a1: "activitySem s1 = activitySem (service_at 0)"
    by (auto simp: se0 service_at_simps md_after_def)
  have acq: "fst (TryAcquire 1 (activitySem s1))"
    unfolding a1 by (rule acquires_service_at)
  have se1: "steady_epochs 0 (- 1) s1 = [0]"
    by (simp add: steady_epochs_def m1 r es)
  from uar_steady [where s = s1 and cur = 0 and se = "- 1", OF acq]
  obtain s2 where u2: "updateAfterRestart ?env (- 1) s1 = Some (Returned, s2)"
    and c2: "committees (chainDB s2) = [0, 0]"
    by (auto simp: se1 c1)
  from u1 c1 u2 c2 show ?thesis by simp
qed

text \<open>C10: when the metadata was read and the permit is refused, \<^verbatim>\<open>updateAfterRestart\<close>
  returns at once. It has written its two log lines and made the one refused
  \<open>TryAcquire\<close>; it has not run the catch-up, not called \<^verbatim>\<open>Events\<close>, and the service has
  as many head handlers as before (none, for a new service): nothing in this routine
  attempts the catch-up or the subscription again.\<close>

theorem denied_guard_skips_subscription:
  assumes "\<not> getMetadata_fails env" and "\<not> fst (TryAcquire 1 (activitySem s))"
  shows "\<exists>s'. updateAfterRestart env startEpoch s = Some (Returned, s') \<and>
      s' = s\<lparr>trace := trace s @
        [EvLog InfoLevel ''Catching up from epoch'', EvTryAcquire False,
         EvLog ErrorLevel ''Failed to obtain activity semaphore; catchup deferred'']\<rparr> \<and>
      headHandlers s' = headHandlers s \<and> chainDB s' = chainDB s \<and>
      EvEvents \<notin> set (drop (length (trace s)) (trace s')) \<and>
      EvBeginTx \<notin> set (drop (length (trace s)) (trace s'))"
  using uar_denied [OF assms, of startEpoch] by simp

text \<open>C10 for a service whose permit is held by another client.\<close>

theorem denied_guard_skips_subscription_witness:
  "\<not> getMetadata_fails (steady_env 9) \<and>
   \<not> fst (TryAcquire 1 (activitySem ((service_at 4)\<lparr>activitySem := held\<rparr>))) \<and>
   updateAfterRestart (steady_env 9) (- 1) ((service_at 4)\<lparr>activitySem := held\<rparr>) =
     Some (Returned, (service_at 4)\<lparr>activitySem := held, trace :=
        [EvLog InfoLevel ''Catching up from epoch'', EvTryAcquire False,
         EvLog ErrorLevel ''Failed to obtain activity semaphore; catchup deferred'']\<rparr>)"
proof -
  let ?s = "(service_at 4)\<lparr>activitySem := held\<rparr>"
  have h1: "\<not> getMetadata_fails (steady_env 9)" by (simp add: steady_env_def)
  have h2: "\<not> fst (TryAcquire 1 (activitySem ?s))" by (simp add: TryAcquire_def held_def)
  from denied_guard_skips_subscription [OF h1 h2, of "- 1"] h1 h2 show ?thesis
    by (simp add: service_at_def)
qed

end
